theory Spec2Isabelle
  imports Main "HOL-Library.Word" "HOL-Library.Signed_Division" "HOL-Library.Monad_Syntax"
begin

unbundle bit_operations_syntax

section \<open>SoftwareSerial.cpp: data model\<close>

text \<open>
  The class declaration (SoftwareSerial.h) is not among the sources, so the build-time
  buffer capacity \<^verbatim>\<open>_SS_MAX_RX_BUFF\<close> is a parameter \<open>cap\<close> of every function that
  uses it. The two ring-buffer indices are 8-bit, like the local \<^verbatim>\<open>uint8_t next\<close> that
  \<^verbatim>\<open>recv\<close> assigns to the tail, and the buffer holds bytes, like the local
  \<^verbatim>\<open>uint8_t d\<close> that \<^verbatim>\<open>read\<close> loads from it. The \<^verbatim>\<open>int32_t\<close> counters are 32-bit
  words compared with the signed orders \<open>\<le>s\<close> and \<open><s\<close>.

  Objects are addressed by a natural number (the \<^verbatim>\<open>this\<close> pointer); the class statics,
  the objects and the hardware the code drives (pin modes, line levels, the tick source)
  form one state record. A pin belongs to an electrical node \<open>net\<close>; \<^verbatim>\<open>gpio_set\<close> drives
  the node of the pin and \<^verbatim>\<open>gpio_get\<close> reads it, so two pins wired together are two
  pins of one node.
\<close>

datatype pin_mode = UNCONFIGURED | OUTPUT | INPUT_PULLUP | INPUT_PULLDOWN

record SoftwareSerial =
  receivePin :: "16 word"
  transmitPin :: "16 word"
  speed :: "32 word"
  buffer_overflow :: bool
  inverse_logic :: bool
  half_duplex :: bool
  output_pending :: bool
  receive_buffer :: "8 word list"
  receive_buffer_tail :: "8 word"
  receive_buffer_head :: "8 word"

record sys =
  initialised :: bool
  active_listener :: "nat option"
  active_out :: "nat option"
  active_in :: "nat option"
  tx_tick_cnt :: "32 word"
  rx_tick_cnt :: "32 word"
  tx_buffer :: "32 word"
  tx_bit_cnt :: "32 word"
  rx_buffer :: "32 word"
  rx_bit_cnt :: "32 word"
  cur_speed :: "32 word"
  objs :: "nat \<Rightarrow> SoftwareSerial"
  timer_running :: bool
  modes :: "16 word \<Rightarrow> pin_mode"
  net :: "16 word \<Rightarrow> nat"
  level :: "nat \<Rightarrow> bool"

definition FORCE_BAUD_RATE :: "32 word" where
  "FORCE_BAUD_RATE = 19200"

definition OVERSAMPLE :: "32 word" where
  "OVERSAMPLE = 3"

text \<open>An update of the fields of the object at address \<open>this\<close>.\<close>

definition upd_obj :: "nat \<Rightarrow> (SoftwareSerial \<Rightarrow> SoftwareSerial) \<Rightarrow> sys \<Rightarrow> sys" where
  "upd_obj this f s = s\<lparr>objs := (objs s)(this := f (objs s this))\<rparr>"

section \<open>The GPIO and the tick source\<close>

definition gpio_set :: "16 word \<Rightarrow> bool \<Rightarrow> sys \<Rightarrow> sys" where
  "gpio_set io v s = s\<lparr>level := (level s)(net s io := v)\<rparr>"

definition gpio_get :: "sys \<Rightarrow> 16 word \<Rightarrow> bool" where
  "gpio_get s io = level s (net s io)"

definition pinMode :: "16 word \<Rightarrow> pin_mode \<Rightarrow> sys \<Rightarrow> sys" where
  "pinMode io m s = s\<lparr>modes := (modes s)(io := m)\<rparr>"

text \<open>
  \<^verbatim>\<open>setSpeed\<close>: on both platforms the tick source is stopped, restarted when the new
  speed is not 0, and the speed is recorded. The period register is not part of the model.
\<close>

definition setSpeed :: "32 word \<Rightarrow> sys \<Rightarrow> sys" where
  "setSpeed sp s =
     (if sp \<noteq> cur_speed s
      then s\<lparr>timer_running := (sp \<noteq> 0), cur_speed := sp\<rparr>
      else s)"

definition setTX :: "nat \<Rightarrow> sys \<Rightarrow> sys" where
  "setTX this s =
     (let ob = objs s this
      in pinMode (transmitPin ob) OUTPUT
           (gpio_set (transmitPin ob) (\<not> inverse_logic ob) s))"

definition setRX :: "nat \<Rightarrow> sys \<Rightarrow> sys" where
  "setRX this s =
     (let ob = objs s this
      in if 0 <s receivePin ob
         then pinMode (receivePin ob)
                (if inverse_logic ob then INPUT_PULLDOWN else INPUT_PULLUP) s
         else s)"

definition setRXTX :: "nat \<Rightarrow> bool \<Rightarrow> sys \<Rightarrow> sys" where
  "setRXTX this input s =
     (if half_duplex (objs s this) then
        if input then
          (if active_in s \<noteq> Some this
           then (setRX this s)\<lparr>rx_bit_cnt := - 1, rx_tick_cnt := 2, active_in := Some this\<rparr>
           else s)
        else
          (if active_in s = Some this
           then (setTX this s)\<lparr>active_in := None\<rparr>
           else s)
      else s)"

section \<open>The bit-timing engine\<close>

definition send :: "nat \<Rightarrow> sys \<Rightarrow> sys" where
  "send this s =
     (let s1 = s\<lparr>tx_tick_cnt := tx_tick_cnt s - 1\<rparr>
      in if tx_tick_cnt s1 \<le>s 0 then
           (let old = tx_bit_cnt s1;
                s2 = s1\<lparr>tx_bit_cnt := old + 1\<rparr>;
                ob = objs s2 this
            in if old <s 10 then
                 (let s3 = gpio_set (transmitPin ob) (tx_buffer s2 AND 1 \<noteq> 0) s2
                  in s3\<lparr>tx_buffer := drop_bit 1 (tx_buffer s3), tx_tick_cnt := OVERSAMPLE\<rparr>)
               else
                 (let s3 = s2\<lparr>tx_tick_cnt := 1\<rparr>
                  in if output_pending ob then s3\<lparr>active_out := None\<rparr>
                     else if 10 + OVERSAMPLE * 5 <s tx_bit_cnt s3 then
                       (let s4 =
                              (if half_duplex ob \<and> active_listener s3 = Some this
                               then (pinMode (receivePin ob)
                                       (if inverse_logic ob then INPUT_PULLDOWN else INPUT_PULLUP)
                                       s3)
                                    \<lparr>rx_bit_cnt := - 1, rx_tick_cnt := 2, active_in := Some this\<rparr>
                               else s3)
                        in s4\<lparr>active_out := None\<rparr>)
                     else s3))
         else s1)"

definition recv :: "nat \<Rightarrow> nat \<Rightarrow> sys \<Rightarrow> sys" where
  "recv cap this s =
     (let s1 = s\<lparr>rx_tick_cnt := rx_tick_cnt s - 1\<rparr>
      in if rx_tick_cnt s1 \<le>s 0 then
           (let inbit = gpio_get s1 (receivePin (objs s1 this))
            in if rx_bit_cnt s1 = - 1 then
                 (if \<not> inbit
                  then s1\<lparr>rx_bit_cnt := 0, rx_tick_cnt := OVERSAMPLE + 1, rx_buffer := 0\<rparr>
                  else s1\<lparr>rx_tick_cnt := 1\<rparr>)
               else if 8 \<le>s rx_bit_cnt s1 then
                 (let s2 =
                        (if inbit then
                           (let ob = objs s1 this;
                                next = (word_of_nat ((unat (receive_buffer_tail ob) + 1) mod cap)
                                          :: 8 word)
                            in if next \<noteq> receive_buffer_head ob
                               then upd_obj this (\<lambda>ob.
                                      ob\<lparr>receive_buffer :=
                                            (receive_buffer ob)
                                              [unat (receive_buffer_tail ob) := ucast (rx_buffer s1)],
                                         receive_buffer_tail := next\<rparr>) s1
                               else upd_obj this (\<lambda>ob. ob\<lparr>buffer_overflow := True\<rparr>) s1)
                         else s1)
                  in s2\<lparr>rx_tick_cnt := 1, rx_bit_cnt := - 1\<rparr>)
               else
                 (let rb = drop_bit 1 (rx_buffer s1);
                      rb' = (if inbit then rb OR 0x80 else rb)
                  in s1\<lparr>rx_buffer := rb', rx_bit_cnt := rx_bit_cnt s1 + 1,
                         rx_tick_cnt := OVERSAMPLE\<rparr>))
         else s1)"

definition handle_interrupt :: "nat \<Rightarrow> sys \<Rightarrow> sys" where
  "handle_interrupt cap s =
     (let s1 = (case active_in s of Some i \<Rightarrow> recv cap i s | None \<Rightarrow> s)
      in case active_out s1 of Some j \<Rightarrow> send j s1 | None \<Rightarrow> s1)"

text \<open>
  One period of the tick source: the interrupt handler runs when the source is enabled.
  Foreground functions are atomic in this model; ticks happen between them and inside
  their busy-wait loops.
\<close>

definition timer_tick :: "nat \<Rightarrow> sys \<Rightarrow> sys" where
  "timer_tick cap s = (if timer_running s then handle_interrupt cap s else s)"

text \<open>
  The loop \<^verbatim>\<open>while (active_out) ;\<close> spins until an interrupt clears the pointer. A loop
  that spins forever has the value \<open>None\<close>.
\<close>

partial_function (option) wait_active_out :: "nat \<Rightarrow> sys \<Rightarrow> sys option" where
  "wait_active_out cap s =
     (if active_out s = None then Some s else wait_active_out cap (timer_tick cap s))"

section \<open>Instance arbitration\<close>

definition stopListening :: "nat \<Rightarrow> nat \<Rightarrow> sys \<Rightarrow> (sys \<times> bool) option" where
  "stopListening cap this s =
     (if active_listener s = Some this then
        do {
          s1 \<leftarrow> wait_active_out cap s;
          let s2 = (if half_duplex (objs s1 this) then setRXTX this False s1 else s1);
          let s3 = s2\<lparr>active_listener := None, active_in := None\<rparr>;
          Some (setSpeed 0 s3, True)
        }
      else Some (s, False))"

definition listen :: "nat \<Rightarrow> nat \<Rightarrow> sys \<Rightarrow> (sys \<times> bool) option" where
  "listen cap this s =
     (if 0 \<le>s receivePin (objs s this) then
        do {
          s1 \<leftarrow> wait_active_out cap s;
          s2 \<leftarrow> (case active_listener s1 of
                   Some l \<Rightarrow> map_option fst (stopListening cap l s1)
                 | None \<Rightarrow> Some s1);
          let s3 = s2\<lparr>rx_tick_cnt := 1, rx_bit_cnt := - 1\<rparr>;
          let s4 = setSpeed (speed (objs s3 this)) s3;
          let s5 = s4\<lparr>active_listener := Some this\<rparr>;
          let s6 = (if \<not> half_duplex (objs s5 this) then s5\<lparr>active_in := Some this\<rparr> else s5);
          Some (s6, True)
        }
      else Some (s, False))"

section \<open>Constructor and public methods\<close>

text \<open>
  The constructor does not initialise the buffer array: its first contents \<open>mem\<close> are a
  parameter.
\<close>

definition SoftwareSerial_new :: "8 word list \<Rightarrow> 16 word \<Rightarrow> 16 word \<Rightarrow> bool \<Rightarrow> SoftwareSerial" where
  "SoftwareSerial_new mem rxPin txPin inverted =
     \<lparr>receivePin = rxPin, transmitPin = txPin, speed = 0, buffer_overflow = False,
      inverse_logic = inverted, half_duplex = (rxPin = txPin), output_pending = False,
      receive_buffer = mem, receive_buffer_tail = 0, receive_buffer_head = 0\<rparr>"

definition begin_serial :: "nat \<Rightarrow> nat \<Rightarrow> 32 word \<Rightarrow> sys \<Rightarrow> sys option" where
  "begin_serial cap this rate s =
     (let sp = FORCE_BAUD_RATE;
          s1 = upd_obj this (\<lambda>ob. ob\<lparr>speed := sp\<rparr>) s;
          s2 = (if \<not> initialised s1 then s1\<lparr>initialised := True\<rparr> else s1);
          s3 = (if \<not> half_duplex (objs s2 this) then setRX this (setTX this s2)
                else setTX this s2)
      in map_option fst (listen cap this s3))"

definition end_serial :: "nat \<Rightarrow> nat \<Rightarrow> sys \<Rightarrow> sys option" where
  "end_serial cap this s = map_option fst (stopListening cap this s)"

definition read :: "nat \<Rightarrow> nat \<Rightarrow> sys \<Rightarrow> sys \<times> int" where
  "read cap this s =
     (let ob = objs s this
      in if receive_buffer_head ob = receive_buffer_tail ob then (s, - 1)
         else
           (let d = receive_buffer ob ! unat (receive_buffer_head ob)
            in (upd_obj this (\<lambda>ob. ob\<lparr>receive_buffer_head :=
                                          word_of_nat ((unat (receive_buffer_head ob) + 1) mod cap)\<rparr>) s,
                uint d)))"

definition available :: "nat \<Rightarrow> nat \<Rightarrow> sys \<Rightarrow> int" where
  "available cap this s =
     (let ob = objs s this
      in (uint (receive_buffer_tail ob) + int cap - uint (receive_buffer_head ob)) smod int cap)"

definition write_serial :: "nat \<Rightarrow> nat \<Rightarrow> 8 word \<Rightarrow> sys \<Rightarrow> (sys \<times> nat) option" where
  "write_serial cap this b s =
     do {
       s1 \<leftarrow> wait_active_out cap (upd_obj this (\<lambda>ob. ob\<lparr>output_pending := True\<rparr>) s);
       let s2 = s1\<lparr>tx_buffer := push_bit 1 (ucast b) OR 0x200, tx_bit_cnt := 0,
                   tx_tick_cnt := OVERSAMPLE\<rparr>;
       let s3 = setSpeed (speed (objs s2 this)) s2;
       let s4 = (if half_duplex (objs s3 this) then setRXTX this False s3 else s3);
       let s5 = upd_obj this (\<lambda>ob. ob\<lparr>output_pending := False\<rparr>) s4;
       Some (s5\<lparr>active_out := Some this\<rparr>, 1)
     }"

definition flush :: "nat \<Rightarrow> sys \<Rightarrow> sys" where
  "flush this s =
     upd_obj this (\<lambda>ob. ob\<lparr>receive_buffer_head := 0, receive_buffer_tail := 0\<rparr>) s"

definition peek :: "nat \<Rightarrow> sys \<Rightarrow> sys \<times> int" where
  "peek this s =
     (let ob = objs s this
      in if receive_buffer_head ob = receive_buffer_tail ob then (s, - 1)
         else (s, uint (receive_buffer ob ! unat (receive_buffer_head ob))))"

section \<open>Invariants and abstractions\<close>

subsection \<open>The ring buffer\<close>

text \<open>
  Both indices are below the capacity; \<open>ring_ok\<close> adds that the array has \<open>cap\<close> slots.
  \<open>unread\<close> lists the stored bytes from head up to tail, oldest first, and \<open>read_n\<close>
  calls \<^verbatim>\<open>read()\<close> \<open>n\<close> times and collects the results.
\<close>

definition idx_ok :: "nat \<Rightarrow> SoftwareSerial \<Rightarrow> bool" where
  "idx_ok cap ob \<longleftrightarrow> unat (receive_buffer_head ob) < cap \<and> unat (receive_buffer_tail ob) < cap"

definition all_idx_ok :: "nat \<Rightarrow> sys \<Rightarrow> bool" where
  "all_idx_ok cap s \<longleftrightarrow> (\<forall>j. idx_ok cap (objs s j))"

definition ring_ok :: "nat \<Rightarrow> SoftwareSerial \<Rightarrow> bool" where
  "ring_ok cap ob \<longleftrightarrow> length (receive_buffer ob) = cap \<and> idx_ok cap ob"

definition unread :: "nat \<Rightarrow> SoftwareSerial \<Rightarrow> 8 word list" where
  "unread cap ob =
     map (\<lambda>k. receive_buffer ob ! ((unat (receive_buffer_head ob) + k) mod cap))
       [0 ..< (unat (receive_buffer_tail ob) + cap - unat (receive_buffer_head ob)) mod cap]"

fun read_n :: "nat \<Rightarrow> nat \<Rightarrow> nat \<Rightarrow> sys \<Rightarrow> sys \<times> int list" where
  "read_n cap this 0 s = (s, [])"
| "read_n cap this (Suc n) s =
     (let (s1, r) = read cap this s; (s2, rs) = read_n cap this n s1 in (s2, r # rs))"


subsection \<open>The tick source and the busy-wait loops\<close>

text \<open>
  \<open>timer_ok\<close>: the tick source runs exactly when the recorded speed is not 0.
  \<open>tx_ok\<close>: the transmit counters are in the range the code keeps them in; \<open>tx_left\<close>
  bounds the ticks until \<^verbatim>\<open>send()\<close> releases the transmitter. \<open>can_finish\<close> is what a
  busy-wait on \<^verbatim>\<open>active_out\<close> needs to end: no transmitter, or a running tick source
  and counters in range. \<open>tick_frame\<close> lists the fields no tick changes.
\<close>

definition timer_ok :: "sys \<Rightarrow> bool" where
  "timer_ok s \<longleftrightarrow> (timer_running s \<longleftrightarrow> cur_speed s \<noteq> 0)"

definition tx_ok :: "sys \<Rightarrow> bool" where
  "tx_ok s \<longleftrightarrow>
     0 \<le> sint (tx_tick_cnt s) \<and> sint (tx_tick_cnt s) \<le> 3
     \<and> 0 \<le> sint (tx_bit_cnt s) \<and> sint (tx_bit_cnt s) \<le> 26
     \<and> (active_out s \<noteq> None \<longrightarrow> sint (tx_bit_cnt s) \<le> 25)"

definition tx_left :: "sys \<Rightarrow> nat" where
  "tx_left s =
     (if active_out s = None then 0
      else 1 + nat (26 - sint (tx_bit_cnt s)) * 4 + nat (sint (tx_tick_cnt s)))"

definition can_finish :: "sys \<Rightarrow> bool" where
  "can_finish s \<longleftrightarrow> active_out s = None \<or> (timer_running s \<and> tx_ok s)"

definition tick_frame :: "sys \<Rightarrow> sys \<Rightarrow> bool" where
  "tick_frame s s' \<longleftrightarrow>
     active_listener s' = active_listener s \<and> cur_speed s' = cur_speed s
     \<and> timer_running s' = timer_running s \<and> initialised s' = initialised s
     \<and> net s' = net s
     \<and> (\<forall>j. receivePin (objs s' j) = receivePin (objs s j)
            \<and> transmitPin (objs s' j) = transmitPin (objs s j)
            \<and> speed (objs s' j) = speed (objs s j)
            \<and> inverse_logic (objs s' j) = inverse_logic (objs s j)
            \<and> half_duplex (objs s' j) = half_duplex (objs s j)
            \<and> output_pending (objs s' j) = output_pending (objs s j))"

text \<open>The state in which \<^verbatim>\<open>begin()\<close> calls \<^verbatim>\<open>listen()\<close> (lines 343 to 364).\<close>

definition begin_setup :: "nat \<Rightarrow> sys \<Rightarrow> sys" where
  "begin_setup this s =
     (let s1 = upd_obj this (\<lambda>ob. ob\<lparr>speed := FORCE_BAUD_RATE\<rparr>) s;
          s2 = (if \<not> initialised s1 then s1\<lparr>initialised := True\<rparr> else s1)
      in if \<not> half_duplex (objs s2 this) then setRX this (setTX this s2)
         else setTX this s2)"


subsection \<open>A frame on a loopback line\<close>

text \<open>
  \<open>frame b\<close> is the word \<^verbatim>\<open>write()\<close> loads into the transmit shift register,
  \<open>txreg b k\<close> the register after \<open>k\<close> bits have been sent, and \<open>rxacc b j\<close> the receive
  shift register after \<open>j\<close> data bits of \<open>b\<close> have been sampled. The byte is committed
  by the tick number \<open>frame_ticks\<close> after \<^verbatim>\<open>write()\<close> returns.
\<close>

definition frame :: "8 word \<Rightarrow> 32 word" where
  "frame b = push_bit 1 (ucast b) OR 0x200"













subsection \<open>Example states\<close>

text \<open>
  \<open>power_on\<close> gives the statics their initial values (lines 96 to 106). The example port
  has a four-slot buffer, receives on pin 10 and transmits on pin 11; the two pins are
  wired together. \<open>demo_listening\<close> is the state after \<^verbatim>\<open>begin()\<close>.
\<close>

definition power_on :: "(nat \<Rightarrow> SoftwareSerial) \<Rightarrow> (16 word \<Rightarrow> nat) \<Rightarrow> (nat \<Rightarrow> bool) \<Rightarrow> sys" where
  "power_on obs nt lv =
     \<lparr>initialised = False, active_listener = None, active_out = None, active_in = None,
      tx_tick_cnt = 0, rx_tick_cnt = 0, tx_buffer = 0, tx_bit_cnt = 0, rx_buffer = 0,
      rx_bit_cnt = - 1, cur_speed = 0, objs = obs, timer_running = False,
      modes = (\<lambda>_. UNCONFIGURED), net = nt, level = lv\<rparr>"

definition loop_net :: "16 word \<Rightarrow> nat" where
  "loop_net p = (if p = 11 then 10 else unat p)"

definition demo_port :: SoftwareSerial where
  "demo_port = SoftwareSerial_new [0, 0, 0, 0] 10 11 False"

definition demo_sys :: sys where
  "demo_sys = power_on (\<lambda>_. demo_port) loop_net (\<lambda>_. True)"

definition demo_listening :: sys where
  "demo_listening =
     \<lparr>initialised = True, active_listener = Some 0, active_out = None, active_in = Some 0,
      tx_tick_cnt = 0, rx_tick_cnt = 1, tx_buffer = 0, tx_bit_cnt = 0, rx_buffer = 0,
      rx_bit_cnt = - 1, cur_speed = 19200,
      objs = (\<lambda>_. demo_port)(0 := demo_port\<lparr>speed := 19200\<rparr>),
      timer_running = True,
      modes = (\<lambda>_. UNCONFIGURED)(11 := OUTPUT, 10 := INPUT_PULLUP),
      net = loop_net, level = (\<lambda>_. True)\<rparr>"

definition demo_buffered :: sys where
  "demo_buffered =
     upd_obj 0 (\<lambda>ob. ob\<lparr>receive_buffer := [0x41, 0x42, 0x43, 0],
                         receive_buffer_tail := 3, receive_buffer_head := 1\<rparr>) demo_sys"

definition demo_stop_phase :: "bool \<Rightarrow> 8 word \<Rightarrow> sys" where
  "demo_stop_phase lv h0 =
     (upd_obj 0 (\<lambda>ob. ob\<lparr>receive_buffer := [0x41, 0x42, 0x43, 0],
                         receive_buffer_tail := 3, receive_buffer_head := h0\<rparr>) demo_sys)
       \<lparr>rx_bit_cnt := 8, rx_tick_cnt := 1, rx_buffer := 0x44, active_in := Some 0,
        level := (\<lambda>_. lv)\<rparr>"









section \<open>Ring-buffer arithmetic\<close>

lemma unat_next_idx:
  assumes "0 < cap" "cap \<le> 256"
  shows "unat (word_of_nat ((unat (w::8 word) + 1) mod cap) :: 8 word) = (unat w + 1) mod cap"
proof -
  have "(unat w + 1) mod cap < cap" using assms by simp
  then have "(unat w + 1) mod cap < 256" using assms by linarith
  then show ?thesis by (simp add: unsigned_of_nat take_bit_nat_eq_self)
qed

lemma next_idx_lt:
  assumes "0 < cap"
  shows "unat (word_of_nat ((unat (w::8 word) + 1) mod cap) :: 8 word) < cap"
proof -
  have "unat (word_of_nat ((unat w + 1) mod cap) :: 8 word) \<le> (unat w + 1) mod cap"
    by (simp add: unsigned_of_nat take_bit_eq_mod)
  also have "\<dots> < cap" using assms by simp
  finally show ?thesis .
qed

lemma available_nat:
  assumes "unat (receive_buffer_head (objs s this)) < cap"
  shows "available cap this s =
         int ((unat (receive_buffer_tail (objs s this)) + cap
               - unat (receive_buffer_head (objs s this))) mod cap)"
proof -
  let ?h = "receive_buffer_head (objs s this)" and ?t = "receive_buffer_tail (objs s this)"
  have e: "uint ?t + int cap - uint ?h = int (unat ?t + cap - unat ?h)"
    using assms by (simp add: of_nat_diff)
  show ?thesis
    unfolding available_def Let_def e
    by (simp add: smod_mod_positive zmod_int)
qed

lemma unat_next_idx_Suc:
  "0 < cap \<Longrightarrow> cap \<le> 256 \<Longrightarrow>
   unat (word_of_nat (Suc (unat (w::8 word)) mod cap) :: 8 word) = Suc (unat w) mod cap"
  using unat_next_idx [of cap w] by simp

lemma next_idx_lt_Suc:
  "0 < cap \<Longrightarrow> unat (word_of_nat (Suc (unat (w::8 word)) mod cap) :: 8 word) < cap"
  using next_idx_lt [of cap w] by simp

lemma ring_count_step:
  fixes h t cap :: nat
  assumes "h < cap" "t < cap" "h \<noteq> t"
  shows "(t + cap - (h + 1) mod cap) mod cap = (t + cap - h) mod cap - 1"
    and "0 < (t + cap - h) mod cap"
proof -
  have a: "(t + cap - h) mod cap = (if h < t then t - h else t + cap - h)"
    using assms by (auto simp: mod_if)
  show "0 < (t + cap - h) mod cap" using assms a by auto
  show "(t + cap - (h + 1) mod cap) mod cap = (t + cap - h) mod cap - 1"
  proof (cases "h + 1 = cap")
    case True
    then have "(h + 1) mod cap = 0" by simp
    then show ?thesis using assms True a by auto
  next
    case False
    then have "(h + 1) mod cap = h + 1" using assms by simp
    then show ?thesis using assms False a by (auto simp: mod_if)
  qed
qed


subsection \<open>Reading\<close>

lemma objs_upd_obj [simp]:
  "objs (upd_obj this f s) = (objs s)(this := f (objs s this))"
  by (simp add: upd_obj_def)

lemma read_empty:
  "receive_buffer_head (objs s this) = receive_buffer_tail (objs s this) \<Longrightarrow>
   read cap this s = (s, - 1)"
  by (simp add: read_def)

lemma read_nonempty:
  "receive_buffer_head (objs s this) \<noteq> receive_buffer_tail (objs s this) \<Longrightarrow>
   read cap this s =
     (upd_obj this (\<lambda>ob. ob\<lparr>receive_buffer_head :=
                       word_of_nat ((unat (receive_buffer_head ob) + 1) mod cap)\<rparr>) s,
      uint (receive_buffer (objs s this) ! unat (receive_buffer_head (objs s this))))"
  by (simp add: read_def Let_def)

lemma uint_byte_range: "0 \<le> uint (d :: 8 word) \<and> uint d \<le> 255"
  using uint_lt2p [of d] by simp

lemma unread_empty_iff:
  assumes "idx_ok cap ob"
  shows "unread cap ob = [] \<longleftrightarrow> receive_buffer_head ob = receive_buffer_tail ob"
proof -
  let ?h = "unat (receive_buffer_head ob)" and ?t = "unat (receive_buffer_tail ob)"
  have "(?t + cap - ?h) mod cap = 0 \<longleftrightarrow> ?h = ?t"
  proof (cases "?h = ?t")
    case True
    then show ?thesis by simp
  next
    case False
    then have "0 < (?t + cap - ?h) mod cap"
      using assms ring_count_step(2) [of ?h cap ?t] by (simp add: idx_ok_def)
    with False show ?thesis by simp
  qed
  then show ?thesis by (simp add: unread_def word_unat_eq_iff)
qed

lemma length_unread:
  "idx_ok cap (objs s this) \<Longrightarrow> int (length (unread cap (objs s this))) = available cap this s"
  by (simp add: unread_def available_nat idx_ok_def)

lemma unread_read:
  assumes "0 < cap" "cap \<le> 256" "idx_ok cap (objs s this)"
    and "receive_buffer_head (objs s this) \<noteq> receive_buffer_tail (objs s this)"
  shows "snd (read cap this s) = uint (hd (unread cap (objs s this)))"
    and "unread cap (objs (fst (read cap this s)) this) = tl (unread cap (objs s this))"
    and "idx_ok cap (objs (fst (read cap this s)) this)"
proof -
  let ?ob = "objs s this"
  let ?h = "unat (receive_buffer_head ?ob)" and ?t = "unat (receive_buffer_tail ?ob)"
  have ne: "?h \<noteq> ?t" using assms(4) by (simp add: word_unat_eq_iff)
  have b: "?h < cap" "?t < cap" using assms(3) by (simp_all add: idx_ok_def)
  have pos: "0 < (?t + cap - ?h) mod cap" using ring_count_step(2) [OF b ne] .
  have st: "(?t + cap - Suc ?h mod cap) mod cap = (?t + cap - ?h) mod cap - 1"
    using ring_count_step(1) [OF b ne] by simp
  show "snd (read cap this s) = uint (hd (unread cap ?ob))"
    using pos b by (simp add: read_nonempty [OF assms(4)] unread_def hd_map upt_conv_Cons)
  show "idx_ok cap (objs (fst (read cap this s)) this)"
    using b assms(1) by (simp add: read_nonempty [OF assms(4)] idx_ok_def next_idx_lt_Suc del: of_nat_Suc of_nat_add)
  show "unread cap (objs (fst (read cap this s)) this) = tl (unread cap ?ob)"
  proof (rule nth_equalityI)
    show "length (unread cap (objs (fst (read cap this s)) this)) = length (tl (unread cap ?ob))"
      using st by (simp add: read_nonempty [OF assms(4)] unread_def unat_next_idx_Suc [OF assms(1,2)]
          del: of_nat_Suc of_nat_add)
  next
    fix i assume "i < length (unread cap (objs (fst (read cap this s)) this))"
    then have i: "i < (?t + cap - ?h) mod cap - 1"
      using st by (simp add: read_nonempty [OF assms(4)] unread_def unat_next_idx_Suc [OF assms(1,2)]
          del: of_nat_Suc of_nat_add)
    have m: "(Suc ?h mod cap + i) mod cap = Suc (?h + i) mod cap"
      by (simp add: mod_add_left_eq)
    have si: "Suc i < (?t + cap - ?h) mod cap" using i by simp
    have i': "i < (?t + cap - Suc ?h mod cap) mod cap" using i st by simp
    show "unread cap (objs (fst (read cap this s)) this) ! i = tl (unread cap ?ob) ! i"
      using si i' m by (simp add: read_nonempty [OF assms(4)] unread_def
          unat_next_idx_Suc [OF assms(1,2)] nth_tl del: of_nat_Suc of_nat_add)
  qed
qed

lemma read_n_unread:
  assumes "0 < cap" "cap \<le> 256"
  shows "idx_ok cap (objs s this) \<Longrightarrow> n \<le> length (unread cap (objs s this)) \<Longrightarrow>
         snd (read_n cap this n s) = map uint (take n (unread cap (objs s this)))
         \<and> unread cap (objs (fst (read_n cap this n s)) this) = drop n (unread cap (objs s this))
         \<and> idx_ok cap (objs (fst (read_n cap this n s)) this)"
proof (induction n arbitrary: s)
  case 0
  then show ?case by simp
next
  case (Suc n)
  let ?s1 = "fst (read cap this s)"
  have ne: "unread cap (objs s this) \<noteq> []" using Suc.prems(2) by auto
  then have hne: "receive_buffer_head (objs s this) \<noteq> receive_buffer_tail (objs s this)"
    using unread_empty_iff [OF Suc.prems(1)] by simp
  note r = unread_read [OF assms Suc.prems(1) hne]
  have len: "n \<le> length (unread cap (objs ?s1 this))"
    using Suc.prems(2) r(2) by simp
  note ih = Suc.IH [OF r(3) len]
  have tk: "take (Suc n) (unread cap (objs s this))
            = hd (unread cap (objs s this)) # take n (tl (unread cap (objs s this)))"
    using ne by (cases "unread cap (objs s this)") simp_all
  show ?case
    using ih r(1,2) tk by (simp add: split_beta drop_Suc)
qed

section \<open>The stop-bit phase of the receive routine\<close>

lemma sle_8_not_minus1: "8 \<le>s (x :: 32 word) \<Longrightarrow> x \<noteq> - 1"
  by (auto simp: word_sle_eq)

lemma recv_stop_low:
  assumes "rx_tick_cnt s - 1 \<le>s 0" "8 \<le>s rx_bit_cnt s"
    and "\<not> gpio_get s (receivePin (objs s this))"
  shows "recv cap this s = s\<lparr>rx_tick_cnt := 1, rx_bit_cnt := - 1\<rparr>"
  using assms sle_8_not_minus1 [OF assms(2)]
  by (simp add: recv_def Let_def gpio_get_def)

lemma recv_stop_full:
  assumes "rx_tick_cnt s - 1 \<le>s 0" "8 \<le>s rx_bit_cnt s"
    and "gpio_get s (receivePin (objs s this))"
    and "word_of_nat ((unat (receive_buffer_tail (objs s this)) + 1) mod cap)
           = receive_buffer_head (objs s this)"
  shows "recv cap this s =
           s\<lparr>rx_tick_cnt := 1, rx_bit_cnt := - 1,
             objs := (objs s)(this := (objs s this)\<lparr>buffer_overflow := True\<rparr>)\<rparr>"
  using assms sle_8_not_minus1 [OF assms(2)]
  by (simp add: recv_def Let_def gpio_get_def upd_obj_def)

lemma recv_stop_store:
  assumes "rx_tick_cnt s - 1 \<le>s 0" "8 \<le>s rx_bit_cnt s"
    and "gpio_get s (receivePin (objs s this))"
    and "word_of_nat ((unat (receive_buffer_tail (objs s this)) + 1) mod cap)
           \<noteq> receive_buffer_head (objs s this)"
  shows "recv cap this s =
           s\<lparr>rx_tick_cnt := 1, rx_bit_cnt := - 1,
             objs := (objs s)(this := (objs s this)
               \<lparr>receive_buffer := (receive_buffer (objs s this))
                   [unat (receive_buffer_tail (objs s this)) := ucast (rx_buffer s)],
                receive_buffer_tail :=
                   word_of_nat ((unat (receive_buffer_tail (objs s this)) + 1) mod cap)\<rparr>)\<rparr>"
  using assms sle_8_not_minus1 [OF assms(2)]
  by (simp add: recv_def Let_def gpio_get_def upd_obj_def)

section \<open>The index invariant\<close>

text \<open>Only the receive routine, \<^verbatim>\<open>read()\<close>, \<^verbatim>\<open>flush()\<close> and \<^verbatim>\<open>write()\<close> change an object.\<close>

lemma objs_gpio_set [simp]: "objs (gpio_set io v s) = objs s"
  by (simp add: gpio_set_def)

lemma objs_pinMode [simp]: "objs (pinMode io m s) = objs s"
  by (simp add: pinMode_def)

lemma objs_setSpeed [simp]: "objs (setSpeed sp s) = objs s"
  by (simp add: setSpeed_def)

lemma objs_setTX [simp]: "objs (setTX this s) = objs s"
  by (simp add: setTX_def Let_def)

lemma objs_setRX [simp]: "objs (setRX this s) = objs s"
  by (simp add: setRX_def Let_def)

lemma objs_setRXTX [simp]: "objs (setRXTX this input s) = objs s"
  by (simp add: setRXTX_def)

lemma objs_send [simp]: "objs (send this s) = objs s"
  by (simp add: send_def Let_def)

lemma recv_idx_ok:
  assumes "0 < cap" "idx_ok cap (objs s j)"
  shows "idx_ok cap (objs (recv cap this s) j)"
  using assms
  by (auto simp: recv_def Let_def idx_ok_def next_idx_lt_Suc simp del: of_nat_Suc of_nat_add)

lemma handle_interrupt_idx_ok:
  assumes "0 < cap" "all_idx_ok cap s"
  shows "all_idx_ok cap (handle_interrupt cap s)"
  using assms
  by (auto simp: handle_interrupt_def Let_def all_idx_ok_def recv_idx_ok split: option.splits)

lemma timer_tick_idx_ok:
  "0 < cap \<Longrightarrow> all_idx_ok cap s \<Longrightarrow> all_idx_ok cap (timer_tick cap s)"
  by (simp add: timer_tick_def handle_interrupt_idx_ok)

lemma wait_active_out_idx_ok_aux:
  assumes "wait_active_out cap s = Some s'"
  shows "0 < cap \<longrightarrow> all_idx_ok cap s \<longrightarrow> all_idx_ok cap s'"
proof (rule wait_active_out.raw_induct [OF _ assms])
  fix w c x y
  assume ih: "\<And>c x y. w c x = Some y \<Longrightarrow> 0 < c \<longrightarrow> all_idx_ok c x \<longrightarrow> all_idx_ok c y"
    and eq: "(if active_out x = None then Some x else w c (timer_tick c x)) = Some y"
  show "0 < c \<longrightarrow> all_idx_ok c x \<longrightarrow> all_idx_ok c y"
  proof (cases "active_out x = None")
    case True
    then show ?thesis using eq by simp
  next
    case False
    then have "w c (timer_tick c x) = Some y" using eq by (auto split: if_splits)
    from ih [OF this] show ?thesis by (simp add: timer_tick_idx_ok)
  qed
qed

lemma wait_active_out_idx_ok:
  "wait_active_out cap s = Some s' \<Longrightarrow> 0 < cap \<Longrightarrow> all_idx_ok cap s \<Longrightarrow> all_idx_ok cap s'"
  using wait_active_out_idx_ok_aux by blast

lemma stopListening_idx_ok:
  assumes "stopListening cap this s = Some (s', r)" "0 < cap" "all_idx_ok cap s"
  shows "all_idx_ok cap s'"
proof (cases "active_listener s = Some this")
  case True
  then obtain s1 where w: "wait_active_out cap s = Some s1"
    and e: "s' = setSpeed 0 ((if half_duplex (objs s1 this) then setRXTX this False s1 else s1)
                 \<lparr>active_listener := None, active_in := None\<rparr>)"
    using assms(1) by (auto simp: stopListening_def Let_def split: bind_splits)
  have "all_idx_ok cap s1" using wait_active_out_idx_ok [OF w assms(2,3)] .
  then show ?thesis unfolding e by (simp add: all_idx_ok_def)
next
  case False
  then show ?thesis using assms by (simp add: stopListening_def)
qed

lemma listen_idx_ok:
  assumes "listen cap this s = Some (s', r)" "0 < cap" "all_idx_ok cap s"
  shows "all_idx_ok cap s'"
proof (cases "0 \<le>s receivePin (objs s this)")
  case True
  then obtain s1 s2 where w: "wait_active_out cap s = Some s1"
    and st: "(case active_listener s1 of
                Some l \<Rightarrow> map_option fst (stopListening cap l s1) | None \<Rightarrow> Some s1) = Some s2"
    and e: "objs s' = objs s2"
    using assms(1) by (auto simp: listen_def Let_def split: bind_splits if_splits)
  have 1: "all_idx_ok cap s1" using wait_active_out_idx_ok [OF w assms(2,3)] .
  have "all_idx_ok cap s2"
    using st 1 stopListening_idx_ok [OF _ assms(2) 1]
    by (auto split: option.splits)
  then show ?thesis using e by (simp add: all_idx_ok_def)
next
  case False
  then show ?thesis using assms by (simp add: listen_def)
qed

lemma begin_serial_idx_ok:
  assumes "begin_serial cap this rate s = Some s'" "0 < cap" "all_idx_ok cap s"
  shows "all_idx_ok cap s'"
proof -
  let ?s3 = "let s1 = upd_obj this (\<lambda>ob. ob\<lparr>speed := FORCE_BAUD_RATE\<rparr>) s;
                 s2 = (if \<not> initialised s1 then s1\<lparr>initialised := True\<rparr> else s1)
             in (if \<not> half_duplex (objs s2 this) then setRX this (setTX this s2)
                else setTX this s2)"
  have "all_idx_ok cap ?s3"
    using assms(3) by (simp add: all_idx_ok_def idx_ok_def Let_def)
  moreover obtain r where "listen cap this ?s3 = Some (s', r)"
    using assms(1) by (auto simp: begin_serial_def Let_def)
  ultimately show ?thesis using listen_idx_ok assms(2) by blast
qed

lemma write_serial_idx_ok:
  assumes "write_serial cap this b s = Some (s', r)" "0 < cap" "all_idx_ok cap s"
  shows "all_idx_ok cap s'"
proof -
  obtain s1 where w: "wait_active_out cap (upd_obj this (\<lambda>ob. ob\<lparr>output_pending := True\<rparr>) s) = Some s1"
    and e: "objs s' = (objs s1)(this := (objs s1 this)\<lparr>output_pending := False\<rparr>)"
    using assms(1) by (auto simp: write_serial_def Let_def split: bind_splits)
  have "all_idx_ok cap (upd_obj this (\<lambda>ob. ob\<lparr>output_pending := True\<rparr>) s)"
    using assms(3) by (simp add: all_idx_ok_def idx_ok_def)
  then have "all_idx_ok cap s1" using wait_active_out_idx_ok [OF w assms(2)] by simp
  then show ?thesis using e by (simp add: all_idx_ok_def idx_ok_def)
qed

lemma read_idx_ok:
  "0 < cap \<Longrightarrow> all_idx_ok cap s \<Longrightarrow> all_idx_ok cap (fst (read cap this s))"
  by (simp add: read_def Let_def all_idx_ok_def idx_ok_def next_idx_lt_Suc
        del: of_nat_Suc of_nat_add)

lemma flush_idx_ok:
  "0 < cap \<Longrightarrow> all_idx_ok cap s \<Longrightarrow> all_idx_ok cap (flush this s)"
  by (simp add: flush_def all_idx_ok_def idx_ok_def)

section \<open>The ring buffer and its public methods\<close>

lemmas demo_defs = power_on_def loop_net_def demo_port_def demo_sys_def demo_buffered_def
  demo_stop_phase_def SoftwareSerial_new_def upd_obj_def

subsection \<open>available()\<close>

text \<open>
  Claim C6. For every ring-buffer state whose indices are in range, \<^verbatim>\<open>available()\<close>
  returns \<open>(tail - head + capacity) mod capacity\<close>, and that number is the count of
  unread bytes: it is the length of the unread contents, that many calls of
  \<^verbatim>\<open>read()\<close> return exactly those bytes, and the call after them returns -1.
  The capacity fits the 8-bit indices (\<open>cap \<le> 256\<close>).
\<close>

theorem available_counts_unread:
  assumes "0 < cap" and "cap \<le> 256" and "idx_ok cap (objs s this)"
  shows "available cap this s =
           (uint (receive_buffer_tail (objs s this)) - uint (receive_buffer_head (objs s this))
              + int cap) mod int cap
       \<and> available cap this s = int (length (unread cap (objs s this)))
       \<and> snd (read_n cap this (nat (available cap this s)) s) = map uint (unread cap (objs s this))
       \<and> snd (read cap this (fst (read_n cap this (nat (available cap this s)) s))) = - 1"
proof -
  let ?h = "receive_buffer_head (objs s this)" and ?t = "receive_buffer_tail (objs s this)"
  let ?n = "length (unread cap (objs s this))"
  have hb: "unat ?h < cap" using assms(3) by (simp add: idx_ok_def)
  have e: "uint ?t - uint ?h + int cap = int (unat ?t + cap - unat ?h)"
    using hb by (simp add: of_nat_diff)
  have 1: "available cap this s = (uint ?t - uint ?h + int cap) mod int cap"
    unfolding e by (simp add: available_nat [OF hb] zmod_int)
  have 2: "available cap this s = int ?n"
    using length_unread [OF assms(3)] by simp
  then have n: "nat (available cap this s) = ?n" by simp
  note r = read_n_unread [OF assms(1,2) assms(3), of ?n]
  have 3: "snd (read_n cap this ?n s) = map uint (unread cap (objs s this))"
    using r by simp
  have "unread cap (objs (fst (read_n cap this ?n s)) this) = []"
    using r by simp
  moreover have "idx_ok cap (objs (fst (read_n cap this ?n s)) this)"
    using r by simp
  ultimately have "receive_buffer_head (objs (fst (read_n cap this ?n s)) this)
                   = receive_buffer_tail (objs (fst (read_n cap this ?n s)) this)"
    using unread_empty_iff by blast
  then have 4: "snd (read cap this (fst (read_n cap this ?n s))) = - 1"
    by (simp add: read_empty)
  show ?thesis using 1 2 3 4 unfolding n by blast
qed

text \<open>The theorem at a four-slot buffer holding two unread bytes.\<close>

theorem available_counts_unread_witness:
  "0 < (4::nat) \<and> (4::nat) \<le> 256 \<and> idx_ok 4 (objs demo_buffered 0)
   \<and> available 4 0 demo_buffered = 2
   \<and> snd (read_n 4 0 (nat (available 4 0 demo_buffered)) demo_buffered) = [0x42, 0x43]
   \<and> snd (read 4 0 (fst (read_n 4 0 (nat (available 4 0 demo_buffered)) demo_buffered))) = - 1"
proof -
  have a: "idx_ok 4 (objs demo_buffered 0)"
    by (simp add: idx_ok_def demo_defs)
  have u: "unread 4 (objs demo_buffered 0) = [0x42, 0x43]"
    by (simp add: unread_def demo_defs upt_rec)
  have p: "0 < (4::nat)" "(4::nat) \<le> 256" by simp_all
  note t = available_counts_unread [OF p a]
  from t have c2: "available 4 0 demo_buffered = int (length (unread 4 (objs demo_buffered 0)))"
    by blast
  from t have c3: "snd (read_n 4 0 (nat (available 4 0 demo_buffered)) demo_buffered)
                   = map uint (unread 4 (objs demo_buffered 0))"
    by blast
  from t have c4: "snd (read 4 0 (fst (read_n 4 0 (nat (available 4 0 demo_buffered))
                     demo_buffered))) = - 1"
    by blast
  show ?thesis
    using a c2 c3 c4 unfolding u by simp
qed

subsection \<open>read() and peek()\<close>

text \<open>
  Claim C7. \<^verbatim>\<open>read()\<close> returns -1 when head equals tail; otherwise it returns the byte
  stored at head, a value from 0 to 255 and so never -1, and advances head by one modulo
  the capacity, leaving every other field alone. \<^verbatim>\<open>peek()\<close> returns what
  \<^verbatim>\<open>read()\<close> would return in the same state and leaves the state as it is, so a
  \<^verbatim>\<open>read()\<close> after it gives the same result.
\<close>

theorem read_peek_spec:
  "(receive_buffer_head (objs s this) = receive_buffer_tail (objs s this) \<longrightarrow>
      read cap this s = (s, - 1) \<and> peek this s = (s, - 1))
   \<and> (receive_buffer_head (objs s this) \<noteq> receive_buffer_tail (objs s this) \<longrightarrow>
        snd (read cap this s)
          = uint (receive_buffer (objs s this) ! unat (receive_buffer_head (objs s this)))
        \<and> 0 \<le> snd (read cap this s) \<and> snd (read cap this s) \<le> 255
        \<and> snd (read cap this s) \<noteq> - 1
        \<and> objs (fst (read cap this s)) =
            (objs s)(this := (objs s this)\<lparr>receive_buffer_head :=
               word_of_nat ((unat (receive_buffer_head (objs s this)) + 1) mod cap)\<rparr>)
        \<and> (0 < cap \<and> cap \<le> 256 \<longrightarrow>
             unat (receive_buffer_head (objs (fst (read cap this s)) this))
               = (unat (receive_buffer_head (objs s this)) + 1) mod cap))
   \<and> peek this s = (s, snd (read cap this s))
   \<and> read cap this (fst (peek this s)) = read cap this s"
proof -
  let ?h = "receive_buffer_head (objs s this)"
  have r: "0 \<le> uint (receive_buffer (objs s this) ! unat ?h)
           \<and> uint (receive_buffer (objs s this) ! unat ?h) \<le> 255"
    by (rule uint_byte_range)
  show ?thesis
  proof (cases "?h = receive_buffer_tail (objs s this)")
    case True
    then show ?thesis by (simp add: read_def peek_def)
  next
    case False
    have u: "0 < cap \<and> cap \<le> 256 \<longrightarrow>
             unat (word_of_nat (Suc (unat ?h) mod cap) :: 8 word) = Suc (unat ?h) mod cap"
      by (simp add: unat_next_idx_Suc)
    have m: "uint (receive_buffer (objs s this) ! unat ?h) \<noteq> - 1"
      using r by linarith
    show ?thesis
      using False r u m by (simp add: read_nonempty peek_def Let_def del: of_nat_Suc of_nat_add)
  qed
qed

text \<open>The theorem at a buffer holding two bytes, and at an empty one.\<close>

theorem read_peek_spec_witness:
  "receive_buffer_head (objs demo_buffered 0) \<noteq> receive_buffer_tail (objs demo_buffered 0)
   \<and> snd (read 4 0 demo_buffered) = 0x42
   \<and> receive_buffer_head (objs (fst (read 4 0 demo_buffered)) 0) = 2
   \<and> peek 0 demo_buffered = (demo_buffered, 0x42)
   \<and> receive_buffer_head (objs demo_sys 0) = receive_buffer_tail (objs demo_sys 0)
   \<and> read 4 0 demo_sys = (demo_sys, - 1) \<and> peek 0 demo_sys = (demo_sys, - 1)"
proof -
  have a: "receive_buffer_head (objs demo_buffered 0) \<noteq> receive_buffer_tail (objs demo_buffered 0)"
    by (simp add: demo_defs)
  have b: "receive_buffer_head (objs demo_sys 0) = receive_buffer_tail (objs demo_sys 0)"
    by (simp add: demo_defs)
  have v: "uint (receive_buffer (objs demo_buffered 0)
                  ! unat (receive_buffer_head (objs demo_buffered 0))) = 0x42"
    by (simp add: demo_defs)
  have n: "(word_of_nat ((unat (receive_buffer_head (objs demo_buffered 0)) + 1) mod 4) :: 8 word) = 2"
    by (simp add: demo_defs)
  note t1 = read_peek_spec [of demo_buffered 0 4]
  note t2 = read_peek_spec [of demo_sys 0 4]
  from t1 a have 1: "snd (read 4 0 demo_buffered)
      = uint (receive_buffer (objs demo_buffered 0) ! unat (receive_buffer_head (objs demo_buffered 0)))"
    by blast
  from t1 a have 2: "objs (fst (read 4 0 demo_buffered)) =
            (objs demo_buffered)(0 := (objs demo_buffered 0)\<lparr>receive_buffer_head :=
               word_of_nat ((unat (receive_buffer_head (objs demo_buffered 0)) + 1) mod 4)\<rparr>)"
    by blast
  from t1 have 3: "peek 0 demo_buffered = (demo_buffered, snd (read 4 0 demo_buffered))"
    by blast
  from t2 b have 4: "read 4 0 demo_sys = (demo_sys, - 1) \<and> peek 0 demo_sys = (demo_sys, - 1)"
    by blast
  show ?thesis
    using a b 4 unfolding 3 2 1 v n by simp
qed

subsection \<open>flush()\<close>

text \<open>
  Claim C8. \<^verbatim>\<open>flush()\<close> sets head and tail of the calling object to 0 and changes
  nothing else: afterwards \<^verbatim>\<open>available()\<close> is 0 and \<^verbatim>\<open>read()\<close> returns -1, while
  the overflow flag, the speed, the pins, the other objects, the active pointers, the tick
  source and the shared counters and shift registers keep their values.
\<close>

theorem flush_spec:
  "flush this s =
     s\<lparr>objs := (objs s)(this := (objs s this)\<lparr>receive_buffer_head := 0,
                                                 receive_buffer_tail := 0\<rparr>)\<rparr>
   \<and> receive_buffer_head (objs (flush this s) this) = 0
   \<and> receive_buffer_tail (objs (flush this s) this) = 0
   \<and> available cap this (flush this s) = 0
   \<and> read cap this (flush this s) = (flush this s, - 1)
   \<and> buffer_overflow (objs (flush this s) this) = buffer_overflow (objs s this)
   \<and> speed (objs (flush this s) this) = speed (objs s this)
   \<and> receivePin (objs (flush this s) this) = receivePin (objs s this)
   \<and> transmitPin (objs (flush this s) this) = transmitPin (objs s this)
   \<and> inverse_logic (objs (flush this s) this) = inverse_logic (objs s this)
   \<and> half_duplex (objs (flush this s) this) = half_duplex (objs s this)
   \<and> output_pending (objs (flush this s) this) = output_pending (objs s this)
   \<and> receive_buffer (objs (flush this s) this) = receive_buffer (objs s this)
   \<and> (\<forall>j. j \<noteq> this \<longrightarrow> objs (flush this s) j = objs s j)
   \<and> active_listener (flush this s) = active_listener s
   \<and> active_out (flush this s) = active_out s
   \<and> active_in (flush this s) = active_in s
   \<and> cur_speed (flush this s) = cur_speed s
   \<and> timer_running (flush this s) = timer_running s
   \<and> initialised (flush this s) = initialised s
   \<and> modes (flush this s) = modes s
   \<and> level (flush this s) = level s
   \<and> net (flush this s) = net s
   \<and> tx_tick_cnt (flush this s) = tx_tick_cnt s \<and> tx_bit_cnt (flush this s) = tx_bit_cnt s
   \<and> tx_buffer (flush this s) = tx_buffer s
   \<and> rx_tick_cnt (flush this s) = rx_tick_cnt s \<and> rx_bit_cnt (flush this s) = rx_bit_cnt s
   \<and> rx_buffer (flush this s) = rx_buffer s"
  by (simp add: flush_def upd_obj_def available_def read_def signed_modulo_int_def)

text \<open>The theorem at a buffer holding two unread bytes.\<close>

theorem flush_spec_witness:
  "available 4 0 demo_buffered = 2
   \<and> available 4 0 (flush 0 demo_buffered) = 0
   \<and> snd (read 4 0 (flush 0 demo_buffered)) = - 1
   \<and> objs (flush 0 demo_buffered) 1 = objs demo_buffered 1"
proof -
  have a: "available 4 0 demo_buffered = 2"
    by (simp add: available_def demo_defs)
  note t = flush_spec [of 0 demo_buffered 4]
  from t have 1: "available 4 0 (flush 0 demo_buffered) = 0" by blast
  from t have 2: "read 4 0 (flush 0 demo_buffered) = (flush 0 demo_buffered, - 1)" by blast
  from t have 3: "\<forall>j. j \<noteq> 0 \<longrightarrow> objs (flush 0 demo_buffered) j = objs demo_buffered j" by blast
  from 3 have 4: "objs (flush 0 demo_buffered) 1 = objs demo_buffered 1" by simp
  show ?thesis using a 1 2 4 by simp
qed

subsection \<open>Index invariant\<close>

text \<open>
  Claim C10. Both indices of every object stay below the capacity: the constructor
  sets them to 0, and \<^verbatim>\<open>read()\<close>, \<^verbatim>\<open>flush()\<close>, the commit in \<^verbatim>\<open>recv()\<close> and
  every other operation, whenever it returns, keep them in range.
\<close>

theorem ring_indices_in_range:
  assumes "0 < cap"
  shows "idx_ok cap (SoftwareSerial_new mem rxPin txPin inverted)
     \<and> (all_idx_ok cap s \<longrightarrow>
          all_idx_ok cap (fst (read cap this s))
        \<and> all_idx_ok cap (flush this s)
        \<and> all_idx_ok cap (recv cap this s)
        \<and> all_idx_ok cap (send this s)
        \<and> all_idx_ok cap (timer_tick cap s)
        \<and> all_idx_ok cap (fst (peek this s))
        \<and> (\<forall>s' r. write_serial cap this b s = Some (s', r) \<longrightarrow> all_idx_ok cap s')
        \<and> (\<forall>s' r. listen cap this s = Some (s', r) \<longrightarrow> all_idx_ok cap s')
        \<and> (\<forall>s' r. stopListening cap this s = Some (s', r) \<longrightarrow> all_idx_ok cap s')
        \<and> (\<forall>s'. begin_serial cap this rate s = Some s' \<longrightarrow> all_idx_ok cap s')
        \<and> (\<forall>s'. end_serial cap this s = Some s' \<longrightarrow> all_idx_ok cap s'))"
proof -
  have c: "idx_ok cap (SoftwareSerial_new mem rxPin txPin inverted)"
    using assms by (simp add: idx_ok_def SoftwareSerial_new_def)
  have rc: "all_idx_ok cap s \<Longrightarrow> all_idx_ok cap (recv cap this s)"
    using assms by (simp add: all_idx_ok_def recv_idx_ok)
  have sd: "all_idx_ok cap s \<Longrightarrow> all_idx_ok cap (send this s)"
    by (simp add: all_idx_ok_def)
  have pk: "all_idx_ok cap s \<Longrightarrow> all_idx_ok cap (fst (peek this s))"
    by (simp add: peek_def Let_def)
  have en: "\<And>s'. all_idx_ok cap s \<Longrightarrow> end_serial cap this s = Some s' \<Longrightarrow> all_idx_ok cap s'"
    using stopListening_idx_ok [OF _ assms] by (auto simp: end_serial_def)
  have rd: "all_idx_ok cap s \<Longrightarrow> all_idx_ok cap (fst (read cap this s))"
    using assms by (rule read_idx_ok)
  have fl: "all_idx_ok cap s \<Longrightarrow> all_idx_ok cap (flush this s)"
    using assms by (rule flush_idx_ok)
  have tt: "all_idx_ok cap s \<Longrightarrow> all_idx_ok cap (timer_tick cap s)"
    using assms by (rule timer_tick_idx_ok)
  have wr: "\<And>s' r. all_idx_ok cap s \<Longrightarrow> write_serial cap this b s = Some (s', r)
              \<Longrightarrow> all_idx_ok cap s'"
    using write_serial_idx_ok [OF _ assms] by blast
  have li: "\<And>s' r. all_idx_ok cap s \<Longrightarrow> listen cap this s = Some (s', r)
              \<Longrightarrow> all_idx_ok cap s'"
    using listen_idx_ok [OF _ assms] by blast
  have sl: "\<And>s' r. all_idx_ok cap s \<Longrightarrow> stopListening cap this s = Some (s', r)
              \<Longrightarrow> all_idx_ok cap s'"
    using stopListening_idx_ok [OF _ assms] by blast
  have bg: "\<And>s'. all_idx_ok cap s \<Longrightarrow> begin_serial cap this rate s = Some s'
              \<Longrightarrow> all_idx_ok cap s'"
    using begin_serial_idx_ok [OF _ assms] by blast
  show ?thesis
    by (intro conjI impI allI c rc sd pk rd fl tt; (erule (1) wr li sl bg en)?)
qed

text \<open>The theorem at a four-slot buffer.\<close>

theorem ring_indices_in_range_witness:
  "0 < (4::nat) \<and> idx_ok 4 (SoftwareSerial_new [0, 0, 0, 0] 10 11 False)
   \<and> all_idx_ok 4 demo_buffered
   \<and> all_idx_ok 4 (fst (read 4 0 demo_buffered))
   \<and> all_idx_ok 4 (flush 0 demo_buffered)
   \<and> all_idx_ok 4 (recv 4 0 (demo_stop_phase True 0))"
proof -
  have p: "0 < (4::nat)" by simp
  have a: "all_idx_ok 4 demo_buffered"
    by (simp add: all_idx_ok_def idx_ok_def demo_defs)
  have b: "all_idx_ok 4 (demo_stop_phase True 0)"
    by (simp add: all_idx_ok_def idx_ok_def demo_defs)
  note t1 = ring_indices_in_range [OF p, of "[0, 0, 0, 0]" 10 11 False demo_buffered 0]
  note t2 = ring_indices_in_range [OF p, of "[0, 0, 0, 0]" 10 11 False "demo_stop_phase True 0" 0]
  from t1 have 1: "idx_ok 4 (SoftwareSerial_new [0, 0, 0, 0] 10 11 False)" by blast
  from t1 a have 2: "all_idx_ok 4 (fst (read 4 0 demo_buffered))" by blast
  from t1 a have 3: "all_idx_ok 4 (flush 0 demo_buffered)" by blast
  from t2 b have 4: "all_idx_ok 4 (recv 4 0 (demo_stop_phase True 0))" by blast
  show ?thesis using a 1 2 3 4 by simp
qed

subsection \<open>Overflow\<close>

lemma recv_overflow_sticky:
  "buffer_overflow (objs s j) \<Longrightarrow> buffer_overflow (objs (recv cap this s) j)"
  by (auto simp: recv_def Let_def)

lemma timer_tick_overflow_sticky:
  "buffer_overflow (objs s j) \<Longrightarrow> buffer_overflow (objs (timer_tick cap s) j)"
  by (auto simp: timer_tick_def handle_interrupt_def Let_def recv_overflow_sticky
      split: option.splits)

lemma read_overflow_sticky:
  "buffer_overflow (objs s j) \<Longrightarrow> buffer_overflow (objs (fst (read cap this s)) j)"
  by (auto simp: read_def Let_def)

lemma flush_overflow_sticky:
  "buffer_overflow (objs s j) \<Longrightarrow> buffer_overflow (objs (flush this s) j)"
  by (auto simp: flush_def)

lemma read_same_ring:
  assumes "receive_buffer (objs a this) = receive_buffer (objs b this)"
    and "receive_buffer_head (objs a this) = receive_buffer_head (objs b this)"
    and "receive_buffer_tail (objs a this) = receive_buffer_tail (objs b this)"
  shows "snd (read cap this a) = snd (read cap this b)"
    and "receive_buffer (objs (fst (read cap this a)) this)
           = receive_buffer (objs (fst (read cap this b)) this)"
    and "receive_buffer_head (objs (fst (read cap this a)) this)
           = receive_buffer_head (objs (fst (read cap this b)) this)"
    and "receive_buffer_tail (objs (fst (read cap this a)) this)
           = receive_buffer_tail (objs (fst (read cap this b)) this)"
  using assms by (simp_all add: read_def Let_def)

lemma read_n_same_ring:
  "receive_buffer (objs a this) = receive_buffer (objs b this) \<Longrightarrow>
   receive_buffer_head (objs a this) = receive_buffer_head (objs b this) \<Longrightarrow>
   receive_buffer_tail (objs a this) = receive_buffer_tail (objs b this) \<Longrightarrow>
   snd (read_n cap this n a) = snd (read_n cap this n b)"
proof (induction n arbitrary: a b)
  case 0
  then show ?case by simp
next
  case (Suc n)
  note r = read_same_ring [OF Suc.prems, of cap]
  have "snd (read_n cap this n (fst (read cap this a)))
        = snd (read_n cap this n (fst (read cap this b)))"
    by (rule Suc.IH [OF r(2,3,4)])
  then show ?case using r(1) by (simp add: split_beta)
qed

text \<open>
  Claim C3. When \<^verbatim>\<open>recv()\<close> samples a high stop bit and the incremented tail equals
  head, the only change to the objects is that the overflow flag of the receiving object is
  set: buffer, head and tail are as before, so \<^verbatim>\<open>available()\<close>, \<^verbatim>\<open>peek()\<close> and any
  number of \<^verbatim>\<open>read()\<close> calls give what they gave before. The flag is sticky: no tick,
  \<^verbatim>\<open>read()\<close> or \<^verbatim>\<open>flush()\<close> clears it.
\<close>

theorem recv_full_drops_byte:
  assumes "rx_tick_cnt s - 1 \<le>s 0" and "8 \<le>s rx_bit_cnt s"
    and "gpio_get s (receivePin (objs s this))"
    and "word_of_nat ((unat (receive_buffer_tail (objs s this)) + 1) mod cap)
           = receive_buffer_head (objs s this)"
  shows "objs (recv cap this s) = (objs s)(this := (objs s this)\<lparr>buffer_overflow := True\<rparr>)
     \<and> receive_buffer (objs (recv cap this s) this) = receive_buffer (objs s this)
     \<and> receive_buffer_head (objs (recv cap this s) this) = receive_buffer_head (objs s this)
     \<and> receive_buffer_tail (objs (recv cap this s) this) = receive_buffer_tail (objs s this)
     \<and> buffer_overflow (objs (recv cap this s) this)
     \<and> unread cap (objs (recv cap this s) this) = unread cap (objs s this)
     \<and> available cap this (recv cap this s) = available cap this s
     \<and> snd (read cap this (recv cap this s)) = snd (read cap this s)
     \<and> snd (peek this (recv cap this s)) = snd (peek this s)
     \<and> (\<forall>n. snd (read_n cap this n (recv cap this s)) = snd (read_n cap this n s))
     \<and> (\<forall>x j. buffer_overflow (objs x j) \<longrightarrow>
            buffer_overflow (objs (timer_tick cap x) j)
          \<and> buffer_overflow (objs (fst (read cap this x)) j)
          \<and> buffer_overflow (objs (flush this x) j))"
proof -
  have e: "recv cap this s =
           s\<lparr>rx_tick_cnt := 1, rx_bit_cnt := - 1,
             objs := (objs s)(this := (objs s this)\<lparr>buffer_overflow := True\<rparr>)\<rparr>"
    by (rule recv_stop_full [OF assms])
  have o: "objs (recv cap this s) = (objs s)(this := (objs s this)\<lparr>buffer_overflow := True\<rparr>)"
    by (simp add: e)
  have b: "receive_buffer (objs (recv cap this s) this) = receive_buffer (objs s this)"
    and h: "receive_buffer_head (objs (recv cap this s) this) = receive_buffer_head (objs s this)"
    and t: "receive_buffer_tail (objs (recv cap this s) this) = receive_buffer_tail (objs s this)"
    and f: "buffer_overflow (objs (recv cap this s) this)"
    by (simp_all add: o)
  have u: "unread cap (objs (recv cap this s) this) = unread cap (objs s this)"
    by (simp add: unread_def b h t)
  have a: "available cap this (recv cap this s) = available cap this s"
    by (simp add: available_def Let_def h t)
  have r: "snd (read cap this (recv cap this s)) = snd (read cap this s)"
    by (rule read_same_ring(1) [OF b h t])
  have p: "snd (peek this (recv cap this s)) = snd (peek this s)"
    by (simp add: peek_def Let_def b h t)
  have n: "\<forall>n. snd (read_n cap this n (recv cap this s)) = snd (read_n cap this n s)"
    using read_n_same_ring [OF b h t] by blast
  have st: "\<forall>x j. buffer_overflow (objs x j) \<longrightarrow>
            buffer_overflow (objs (timer_tick cap x) j)
          \<and> buffer_overflow (objs (fst (read cap this x)) j)
          \<and> buffer_overflow (objs (flush this x) j)"
    using timer_tick_overflow_sticky read_overflow_sticky flush_overflow_sticky by blast
  show ?thesis using o b h t f u a r p n st by blast
qed

text \<open>The theorem at a full four-slot buffer (three bytes stored).\<close>

theorem recv_full_drops_byte_witness:
  "rx_tick_cnt (demo_stop_phase True 0) - 1 \<le>s 0 \<and> 8 \<le>s rx_bit_cnt (demo_stop_phase True 0)
   \<and> gpio_get (demo_stop_phase True 0) (receivePin (objs (demo_stop_phase True 0) 0))
   \<and> word_of_nat ((unat (receive_buffer_tail (objs (demo_stop_phase True 0) 0)) + 1) mod 4)
         = receive_buffer_head (objs (demo_stop_phase True 0) 0)
   \<and> \<not> buffer_overflow (objs (demo_stop_phase True 0) 0)
   \<and> buffer_overflow (objs (recv 4 0 (demo_stop_phase True 0)) 0)
   \<and> available 4 0 (recv 4 0 (demo_stop_phase True 0)) = 3
   \<and> snd (read_n 4 0 3 (recv 4 0 (demo_stop_phase True 0))) = [0x41, 0x42, 0x43]"
proof -
  have 1: "rx_tick_cnt (demo_stop_phase True 0) - 1 \<le>s 0"
    and 2: "8 \<le>s rx_bit_cnt (demo_stop_phase True 0)"
    and 3: "gpio_get (demo_stop_phase True 0) (receivePin (objs (demo_stop_phase True 0) 0))"
    and 4: "word_of_nat ((unat (receive_buffer_tail (objs (demo_stop_phase True 0) 0)) + 1) mod 4)
         = receive_buffer_head (objs (demo_stop_phase True 0) 0)"
    and 5: "\<not> buffer_overflow (objs (demo_stop_phase True 0) 0)"
    by (simp_all add: demo_defs gpio_get_def)
  note t = recv_full_drops_byte [OF 1 2 3 4]
  from t have a: "buffer_overflow (objs (recv 4 0 (demo_stop_phase True 0)) 0)" by blast
  from t have b: "available 4 0 (recv 4 0 (demo_stop_phase True 0))
                  = available 4 0 (demo_stop_phase True 0)" by blast
  from t have c: "snd (read_n 4 0 3 (recv 4 0 (demo_stop_phase True 0)))
                  = snd (read_n 4 0 3 (demo_stop_phase True 0))" by blast
  have d: "available 4 0 (demo_stop_phase True 0) = 3"
    by (simp add: available_def demo_defs)
  have u: "unread 4 (objs (demo_stop_phase True 0) 0) = [0x41, 0x42, 0x43]"
    by (simp add: unread_def demo_defs upt_rec)
  have i: "idx_ok 4 (objs (demo_stop_phase True 0) 0)"
    by (simp add: idx_ok_def demo_defs)
  have e: "snd (read_n 4 0 3 (demo_stop_phase True 0)) = [0x41, 0x42, 0x43]"
    using read_n_unread [of 4 "demo_stop_phase True 0" 0 3] i u by simp
  show ?thesis using 1 2 3 4 5 a unfolding b c d e by simp
qed

subsection \<open>Stop bit\<close>

text \<open>
  Claim C2, as stated, fails: in the stop-bit phase with the line sampled low and room in
  the buffer, \<^verbatim>\<open>recv()\<close> leaves every object unchanged, so the assembled byte 0x44 is
  not committed.
\<close>

theorem low_stop_bit_discards_byte:
  "rx_tick_cnt (demo_stop_phase False 1) - 1 \<le>s 0 \<and> 8 \<le>s rx_bit_cnt (demo_stop_phase False 1)
   \<and> \<not> gpio_get (demo_stop_phase False 1) (receivePin (objs (demo_stop_phase False 1) 0))
   \<and> word_of_nat ((unat (receive_buffer_tail (objs (demo_stop_phase False 1) 0)) + 1) mod 4)
         \<noteq> receive_buffer_head (objs (demo_stop_phase False 1) 0)
   \<and> objs (recv 4 0 (demo_stop_phase False 1)) = objs (demo_stop_phase False 1)
   \<and> available 4 0 (recv 4 0 (demo_stop_phase False 1)) = available 4 0 (demo_stop_phase False 1)"
proof -
  have 1: "rx_tick_cnt (demo_stop_phase False 1) - 1 \<le>s 0"
    and 2: "8 \<le>s rx_bit_cnt (demo_stop_phase False 1)"
    and 3: "\<not> gpio_get (demo_stop_phase False 1) (receivePin (objs (demo_stop_phase False 1) 0))"
    and 4: "word_of_nat ((unat (receive_buffer_tail (objs (demo_stop_phase False 1) 0)) + 1) mod 4)
         \<noteq> receive_buffer_head (objs (demo_stop_phase False 1) 0)"
    by (simp_all add: demo_defs gpio_get_def)
  have e: "recv 4 0 (demo_stop_phase False 1)
           = (demo_stop_phase False 1)\<lparr>rx_tick_cnt := 1, rx_bit_cnt := - 1\<rparr>"
    by (rule recv_stop_low [OF 1 2 3])
  show ?thesis using 1 2 3 4 unfolding e by (simp add: available_def)
qed

text \<open>
  Claim C2, amended. In the stop-bit phase (bit counter at least 8) the assembled byte is
  committed only when the sampled stop bit is high: a low stop bit changes nothing but the
  two receive counters, a high one with room in the buffer stores the byte at tail and
  advances tail. In every case the state machine returns to idle.
\<close>

theorem recv_commits_on_high_stop_bit:
  assumes "rx_tick_cnt s - 1 \<le>s 0" and "8 \<le>s rx_bit_cnt s"
  shows "(\<not> gpio_get s (receivePin (objs s this)) \<longrightarrow>
            recv cap this s = s\<lparr>rx_tick_cnt := 1, rx_bit_cnt := - 1\<rparr>)
     \<and> (gpio_get s (receivePin (objs s this))
          \<and> word_of_nat ((unat (receive_buffer_tail (objs s this)) + 1) mod cap)
                \<noteq> receive_buffer_head (objs s this) \<longrightarrow>
            objs (recv cap this s) =
              (objs s)(this := (objs s this)
                 \<lparr>receive_buffer := (receive_buffer (objs s this))
                     [unat (receive_buffer_tail (objs s this)) := ucast (rx_buffer s)],
                  receive_buffer_tail :=
                     word_of_nat ((unat (receive_buffer_tail (objs s this)) + 1) mod cap)\<rparr>))
     \<and> rx_bit_cnt (recv cap this s) = - 1 \<and> rx_tick_cnt (recv cap this s) = 1"
proof -
  have n: "rx_bit_cnt s \<noteq> - 1" by (rule sle_8_not_minus1 [OF assms(2)])
  have 1: "\<not> gpio_get s (receivePin (objs s this)) \<longrightarrow>
            recv cap this s = s\<lparr>rx_tick_cnt := 1, rx_bit_cnt := - 1\<rparr>"
    using recv_stop_low [OF assms] by blast
  have 2: "gpio_get s (receivePin (objs s this))
          \<and> word_of_nat ((unat (receive_buffer_tail (objs s this)) + 1) mod cap)
                \<noteq> receive_buffer_head (objs s this) \<longrightarrow>
            objs (recv cap this s) =
              (objs s)(this := (objs s this)
                 \<lparr>receive_buffer := (receive_buffer (objs s this))
                     [unat (receive_buffer_tail (objs s this)) := ucast (rx_buffer s)],
                  receive_buffer_tail :=
                     word_of_nat ((unat (receive_buffer_tail (objs s this)) + 1) mod cap)\<rparr>)"
    using recv_stop_store [OF assms, of this cap] by auto
  have 3: "rx_bit_cnt (recv cap this s) = - 1 \<and> rx_tick_cnt (recv cap this s) = 1"
    using assms n by (simp add: recv_def Let_def)
  show ?thesis using 1 2 3 by blast
qed

text \<open>The theorem with a low and with a high stop bit.\<close>

theorem recv_commits_on_high_stop_bit_witness:
  "rx_tick_cnt (demo_stop_phase False 1) - 1 \<le>s 0 \<and> 8 \<le>s rx_bit_cnt (demo_stop_phase False 1)
   \<and> \<not> gpio_get (demo_stop_phase False 1) (receivePin (objs (demo_stop_phase False 1) 0))
   \<and> recv 4 0 (demo_stop_phase False 1) = (demo_stop_phase False 1)\<lparr>rx_tick_cnt := 1, rx_bit_cnt := - 1\<rparr>
   \<and> rx_tick_cnt (demo_stop_phase True 1) - 1 \<le>s 0 \<and> 8 \<le>s rx_bit_cnt (demo_stop_phase True 1)
   \<and> gpio_get (demo_stop_phase True 1) (receivePin (objs (demo_stop_phase True 1) 0))
   \<and> receive_buffer (objs (recv 4 0 (demo_stop_phase True 1)) 0) = [0x41, 0x42, 0x43, 0x44]
   \<and> receive_buffer_tail (objs (recv 4 0 (demo_stop_phase True 1)) 0) = 0"
proof -
  have 1: "rx_tick_cnt (demo_stop_phase False 1) - 1 \<le>s 0"
    and 2: "8 \<le>s rx_bit_cnt (demo_stop_phase False 1)"
    and 3: "\<not> gpio_get (demo_stop_phase False 1) (receivePin (objs (demo_stop_phase False 1) 0))"
    and 4: "rx_tick_cnt (demo_stop_phase True 1) - 1 \<le>s 0"
    and 5: "8 \<le>s rx_bit_cnt (demo_stop_phase True 1)"
    and 6: "gpio_get (demo_stop_phase True 1) (receivePin (objs (demo_stop_phase True 1) 0))"
    and 7: "word_of_nat ((unat (receive_buffer_tail (objs (demo_stop_phase True 1) 0)) + 1) mod 4)
                \<noteq> receive_buffer_head (objs (demo_stop_phase True 1) 0)"
    by (simp_all add: demo_defs gpio_get_def)
  from recv_commits_on_high_stop_bit [OF 1 2, of 0 4] 3
  have a: "recv 4 0 (demo_stop_phase False 1)
           = (demo_stop_phase False 1)\<lparr>rx_tick_cnt := 1, rx_bit_cnt := - 1\<rparr>"
    by blast
  from recv_commits_on_high_stop_bit [OF 4 5, of 0 4] 6 7
  have b: "objs (recv 4 0 (demo_stop_phase True 1)) =
              (objs (demo_stop_phase True 1))(0 := (objs (demo_stop_phase True 1) 0)
                 \<lparr>receive_buffer := (receive_buffer (objs (demo_stop_phase True 1) 0))
                     [unat (receive_buffer_tail (objs (demo_stop_phase True 1) 0))
                        := ucast (rx_buffer (demo_stop_phase True 1))],
                  receive_buffer_tail :=
                     word_of_nat ((unat (receive_buffer_tail (objs (demo_stop_phase True 1) 0)) + 1) mod 4)\<rparr>)"
    by blast
  have c: "receive_buffer (objs (recv 4 0 (demo_stop_phase True 1)) 0) = [0x41, 0x42, 0x43, 0x44]
           \<and> receive_buffer_tail (objs (recv 4 0 (demo_stop_phase True 1)) 0) = 0"
    unfolding b by (simp add: demo_defs)
  show ?thesis using 1 2 3 4 5 6 a c by simp
qed

section \<open>Busy-wait loops and arbitration\<close>

subsection \<open>The loop and what no tick changes\<close>

lemma wait_active_out_idle:
  "active_out s = None \<Longrightarrow> wait_active_out cap s = Some s"
  by (subst wait_active_out.simps) simp

lemma wait_active_out_step:
  "active_out s \<noteq> None \<Longrightarrow> wait_active_out cap s = wait_active_out cap (timer_tick cap s)"
  by (subst wait_active_out.simps) auto

lemma wait_active_out_cleared_aux:
  assumes "wait_active_out cap s = Some s'"
  shows "active_out s' = None"
proof (rule wait_active_out.raw_induct [OF _ assms])
  fix w c x y
  assume ih: "\<And>c x y. w c x = Some y \<Longrightarrow> active_out y = None"
    and eq: "(if active_out x = None then Some x else w c (timer_tick c x)) = Some y"
  show "active_out y = None"
  proof (cases "active_out x = None")
    case True
    then show ?thesis using eq by simp
  next
    case False
    then have "w c (timer_tick c x) = Some y" using eq by (auto split: if_splits)
    then show ?thesis by (rule ih)
  qed
qed

lemma tick_frame_refl: "tick_frame s s"
  by (simp add: tick_frame_def)

lemma tick_frame_trans: "tick_frame a b \<Longrightarrow> tick_frame b c \<Longrightarrow> tick_frame a c"
  by (simp add: tick_frame_def)

lemma recv_frame: "tick_frame s (recv cap this s)"
  by (simp add: tick_frame_def recv_def Let_def upd_obj_def)

lemma send_frame: "tick_frame s (send this s)"
  by (simp add: tick_frame_def send_def Let_def gpio_set_def pinMode_def)

lemma timer_tick_frame: "tick_frame s (timer_tick cap s)"
proof -
  have "tick_frame s (handle_interrupt cap s)"
    unfolding handle_interrupt_def Let_def
    by (auto split: option.splits intro: tick_frame_refl recv_frame send_frame
        tick_frame_trans [OF recv_frame send_frame])
  then show ?thesis by (simp add: timer_tick_def tick_frame_refl)
qed

lemma wait_active_out_frame:
  assumes "wait_active_out cap s = Some s'"
  shows "tick_frame s s'"
proof (rule wait_active_out.raw_induct [OF _ assms])
  fix w c x y
  assume ih: "\<And>c x y. w c x = Some y \<Longrightarrow> tick_frame x y"
    and eq: "(if active_out x = None then Some x else w c (timer_tick c x)) = Some y"
  show "tick_frame x y"
  proof (cases "active_out x = None")
    case True
    then show ?thesis using eq by (simp add: tick_frame_refl)
  next
    case False
    then have "w c (timer_tick c x) = Some y" using eq by (auto split: if_splits)
    then have "tick_frame (timer_tick c x) y" by (rule ih)
    then show ?thesis using timer_tick_frame tick_frame_trans by blast
  qed
qed

subsection \<open>stopListening(), first part\<close>

lemma stopListening_not_listener:
  "active_listener s \<noteq> Some this \<Longrightarrow> stopListening cap this s = Some (s, False)"
  by (simp add: stopListening_def)

lemma stopListening_listener:
  assumes "active_listener s = Some this" and "stopListening cap this s = Some (s', r)"
  shows "r \<and> active_listener s' = None \<and> active_in s' = None \<and> cur_speed s' = 0
         \<and> (timer_ok s \<longrightarrow> \<not> timer_running s') \<and> active_out s' = None
         \<and> objs s' = objs (the (wait_active_out cap s))"
proof -
  obtain s1 where w: "wait_active_out cap s = Some s1"
    and e: "s' = setSpeed 0 ((if half_duplex (objs s1 this) then setRXTX this False s1 else s1)
                 \<lparr>active_listener := None, active_in := None\<rparr>)"
    and r: "r"
    using assms by (auto simp: stopListening_def Let_def split: bind_splits)
  have o: "active_out s1 = None" using wait_active_out_cleared_aux [OF w] .
  have f: "tick_frame s s1" using wait_active_out_frame [OF w] .
  have t: "timer_ok s \<Longrightarrow> timer_ok s1" using f by (simp add: tick_frame_def timer_ok_def)
  show ?thesis
    using r o t w unfolding e
    by (auto simp: setSpeed_def setRXTX_def setTX_def Let_def gpio_set_def pinMode_def timer_ok_def)
qed

subsection \<open>Termination of the loop\<close>

text \<open>
  Each tick with an active transmitter decreases \<open>tx_left\<close> and keeps the counters in
  range, so the loop ends whenever the tick source runs.
\<close>

lemma sint_dec32:
  "- 100 \<le> sint (w :: 32 word) \<Longrightarrow> sint w \<le> 100 \<Longrightarrow> sint (w - 1) = sint w - 1"
  by (simp add: sint_word_ariths signed_take_bit_int_eq_self)

lemma sint_inc32:
  "- 100 \<le> sint (w :: 32 word) \<Longrightarrow> sint w \<le> 100 \<Longrightarrow> sint (w + 1) = sint w + 1"
  by (simp add: sint_word_ariths signed_take_bit_int_eq_self)

lemma send_progress:
  assumes "tx_ok s" and "active_out s \<noteq> None"
  shows "tx_ok (send this s) \<and> tx_left (send this s) < tx_left s"
proof -
  let ?t = "tx_tick_cnt s" and ?b = "tx_bit_cnt s"
  have t: "0 \<le> sint ?t" "sint ?t \<le> 3" and b: "0 \<le> sint ?b" "sint ?b \<le> 25"
    using assms by (simp_all add: tx_ok_def)
  have td: "sint (?t - 1) = sint ?t - 1" using t by (simp add: sint_dec32)
  have bi: "sint (?b + 1) = sint ?b + 1" using b by (simp add: sint_inc32)
  show ?thesis
    using t b assms(2)
    by (auto simp: send_def Let_def tx_ok_def tx_left_def word_sle_eq word_sless_alt td bi
        OVERSAMPLE_def gpio_set_def pinMode_def)
qed

lemma recv_tx_fields:
  "tx_tick_cnt (recv cap this s) = tx_tick_cnt s \<and> tx_bit_cnt (recv cap this s) = tx_bit_cnt s
   \<and> active_out (recv cap this s) = active_out s"
  by (simp add: recv_def Let_def upd_obj_def)

lemma recv_tx_ok: "tx_ok (recv cap this s) = tx_ok s"
  by (simp add: tx_ok_def recv_tx_fields)

lemma recv_tx_left: "tx_left (recv cap this s) = tx_left s"
  by (simp add: tx_left_def recv_tx_fields)

lemma timer_tick_progress:
  assumes "timer_running s" and "tx_ok s" and "active_out s \<noteq> None"
  shows "tx_ok (timer_tick cap s) \<and> tx_left (timer_tick cap s) < tx_left s"
proof -
  obtain j where j: "active_out s = Some j" using assms(3) by auto
  let ?s1 = "case active_in s of Some i \<Rightarrow> recv cap i s | None \<Rightarrow> s"
  have 1: "tx_ok ?s1" "tx_left ?s1 = tx_left s" "active_out ?s1 = Some j"
    using assms(2) j by (simp_all add: recv_tx_ok recv_tx_left recv_tx_fields split: option.splits)
  have "timer_tick cap s = send j ?s1"
    using assms(1) 1(3) by (simp add: timer_tick_def handle_interrupt_def Let_def)
  then show ?thesis using send_progress [of ?s1 j] 1 by simp
qed

lemma timer_tick_tx_ok:
  assumes "tx_ok s"
  shows "tx_ok (timer_tick cap s)"
proof (cases "timer_running s \<and> active_out s \<noteq> None")
  case True
  then show ?thesis using timer_tick_progress assms by blast
next
  case False
  then show ?thesis
    using assms
    by (auto simp: timer_tick_def handle_interrupt_def Let_def recv_tx_ok recv_tx_fields
        split: option.splits)
qed

lemma wait_active_out_returns:
  "timer_running s \<Longrightarrow> tx_ok s \<Longrightarrow> \<exists>s'. wait_active_out cap s = Some s'"
proof (induction "tx_left s" arbitrary: s rule: less_induct)
  case less
  show ?case
  proof (cases "active_out s = None")
    case True
    then show ?thesis by (simp add: wait_active_out_idle)
  next
    case False
    note p = timer_tick_progress [OF less.prems False, of cap]
    have r: "timer_running (timer_tick cap s)"
      using timer_tick_frame [of s cap] less.prems(1) by (simp add: tick_frame_def)
    from less.hyps [OF _ r] p
    obtain s' where "wait_active_out cap (timer_tick cap s) = Some s'" by blast
    then show ?thesis using wait_active_out_step [OF False] by simp
  qed
qed

lemma wait_active_out_can_finish:
  "can_finish s \<Longrightarrow> \<exists>s'. wait_active_out cap s = Some s'"
  using wait_active_out_returns wait_active_out_idle by (auto simp: can_finish_def)

lemma stopListening_can_finish:
  assumes "active_listener s = Some this" and "can_finish s"
  shows "\<exists>s'. stopListening cap this s = Some (s', True)"
proof -
  obtain s1 where "wait_active_out cap s = Some s1"
    using wait_active_out_can_finish [OF assms(2)] by blast
  then show ?thesis using assms(1) by (simp add: stopListening_def Let_def)
qed

subsection \<open>listen() and begin()\<close>

lemma active_out_setSpeed [simp]: "active_out (setSpeed sp s) = active_out s"
  by (simp add: setSpeed_def)

lemma active_out_setRXTX [simp]: "active_out (setRXTX this input s) = active_out s"
  by (simp add: setRXTX_def setTX_def setRX_def Let_def gpio_set_def pinMode_def)

lemma stopListening_idle_objs:
  assumes "active_out s = None" and "stopListening cap this s = Some (s', r)"
  shows "objs s' = objs s \<and> active_out s' = None"
proof (cases "active_listener s = Some this")
  case True
  have "wait_active_out cap s = Some s" using assms(1) by (rule wait_active_out_idle)
  then have "s' = setSpeed 0 ((if half_duplex (objs s this) then setRXTX this False s else s)
                 \<lparr>active_listener := None, active_in := None\<rparr>)"
    using assms(2) True by (simp add: stopListening_def Let_def)
  then show ?thesis using assms(1) by simp
next
  case False
  then show ?thesis using assms by (simp add: stopListening_def)
qed

lemma listen_invalid_pin:
  "\<not> 0 \<le>s receivePin (objs s this) \<Longrightarrow> listen cap this s = Some (s, False)"
  by (simp add: listen_def)

lemma listen_valid_pin:
  assumes "0 \<le>s receivePin (objs s this)" and "listen cap this s = Some (s', r)"
  shows "r \<and> active_listener s' = Some this \<and> cur_speed s' = speed (objs s this)
       \<and> rx_tick_cnt s' = 1 \<and> rx_bit_cnt s' = - 1
       \<and> (\<not> half_duplex (objs s this) \<longrightarrow> active_in s' = Some this)
       \<and> speed (objs s' this) = speed (objs s this)
       \<and> active_out s' = None"
proof -
  obtain s1 s2 where w: "wait_active_out cap s = Some s1"
    and st: "(case active_listener s1 of
                Some l \<Rightarrow> map_option fst (stopListening cap l s1) | None \<Rightarrow> Some s1) = Some s2"
    and e: "s' = (let s3 = s2\<lparr>rx_tick_cnt := 1, rx_bit_cnt := - 1\<rparr>;
                      s4 = setSpeed (speed (objs s3 this)) s3;
                      s5 = s4\<lparr>active_listener := Some this\<rparr>
                  in if \<not> half_duplex (objs s5 this) then s5\<lparr>active_in := Some this\<rparr> else s5)"
    and r: "r"
    using assms by (auto simp: listen_def Let_def split: bind_splits)
  have f1: "tick_frame s s1" by (rule wait_active_out_frame [OF w])
  have o1: "active_out s1 = None" by (rule wait_active_out_cleared_aux [OF w])
  have f2: "objs s2 = objs s1 \<and> active_out s2 = None"
  proof (cases "active_listener s1")
    case None
    then show ?thesis using st o1 by simp
  next
    case (Some l)
    then obtain r2 where sl: "stopListening cap l s1 = Some (s2, r2)" using st by auto
    show ?thesis by (rule stopListening_idle_objs [OF o1 sl])
  qed
  have sp: "speed (objs s2 this) = speed (objs s this)"
    and hd: "half_duplex (objs s2 this) = half_duplex (objs s this)"
    using f1 f2 by (simp_all add: tick_frame_def)
  show ?thesis
    using r sp hd f2 unfolding e by (simp add: Let_def setSpeed_def)
qed

lemma listen_can_finish:
  assumes "0 \<le>s receivePin (objs s this)" and "can_finish s"
  shows "\<exists>s'. listen cap this s = Some (s', True)"
proof -
  obtain s1 where w: "wait_active_out cap s = Some s1"
    using wait_active_out_can_finish [OF assms(2)] by blast
  have o1: "active_out s1 = None" by (rule wait_active_out_cleared_aux [OF w])
  have "\<exists>s2. (case active_listener s1 of
                Some l \<Rightarrow> map_option fst (stopListening cap l s1) | None \<Rightarrow> Some s1) = Some s2"
  proof (cases "active_listener s1")
    case None
    then show ?thesis by simp
  next
    case (Some l)
    have "can_finish s1" using o1 by (simp add: can_finish_def)
    from stopListening_can_finish [OF Some this, of cap] show ?thesis using Some by auto
  qed
  then show ?thesis using assms(1) w by (auto simp: listen_def Let_def)
qed

lemma begin_demo: "begin_serial 4 0 9600 demo_sys = Some demo_listening"
  by (auto simp: begin_serial_def listen_def stopListening_def wait_active_out_idle Let_def
      setTX_def setRX_def setSpeed_def gpio_set_def pinMode_def FORCE_BAUD_RATE_def
      demo_defs demo_listening_def word_sless_alt word_sle_eq fun_eq_iff)

lemma begin_serial_listen:
  "begin_serial cap this rate s = map_option fst (listen cap this (begin_setup this s))"
  by (simp add: begin_serial_def begin_setup_def Let_def)

lemma begin_setup_fields:
  "objs (begin_setup this s) = (objs s)(this := (objs s this)\<lparr>speed := FORCE_BAUD_RATE\<rparr>)
   \<and> active_out (begin_setup this s) = active_out s
   \<and> timer_running (begin_setup this s) = timer_running s
   \<and> tx_tick_cnt (begin_setup this s) = tx_tick_cnt s
   \<and> tx_bit_cnt (begin_setup this s) = tx_bit_cnt s
   \<and> initialised (begin_setup this s)"
  by (simp add: begin_setup_def Let_def setTX_def setRX_def gpio_set_def pinMode_def upd_obj_def)

lemma begin_setup_can_finish: "can_finish s \<Longrightarrow> can_finish (begin_setup this s)"
  by (simp add: can_finish_def tx_ok_def begin_setup_fields)

lemma begin_serial_result:
  assumes "begin_serial cap this rate s = Some s'"
  shows "speed (objs s' this) = FORCE_BAUD_RATE
       \<and> (0 \<le>s receivePin (objs s this) \<longrightarrow>
            active_listener s' = Some this \<and> cur_speed s' = FORCE_BAUD_RATE
            \<and> rx_tick_cnt s' = 1 \<and> rx_bit_cnt s' = - 1
            \<and> (\<not> half_duplex (objs s this) \<longrightarrow> active_in s' = Some this))"
proof -
  let ?s0 = "begin_setup this s"
  obtain r where l: "listen cap this ?s0 = Some (s', r)"
    using assms by (auto simp: begin_serial_listen)
  have o: "objs ?s0 this = (objs s this)\<lparr>speed := FORCE_BAUD_RATE\<rparr>"
    by (simp add: begin_setup_fields)
  show ?thesis
  proof (cases "0 \<le>s receivePin (objs s this)")
    case True
    then have "0 \<le>s receivePin (objs ?s0 this)" by (simp add: o)
    from listen_valid_pin [OF this l] True show ?thesis by (simp add: o)
  next
    case False
    then have "\<not> 0 \<le>s receivePin (objs ?s0 this)" by (simp add: o)
    from listen_invalid_pin [OF this, of cap] l have "s' = ?s0" by simp
    then show ?thesis using False by (simp add: o)
  qed
qed

lemma begin_serial_returns:
  assumes "can_finish s"
  shows "\<exists>s'. begin_serial cap this rate s = Some s'"
proof (cases "0 \<le>s receivePin (objs (begin_setup this s) this)")
  case True
  from listen_can_finish [OF True begin_setup_can_finish [OF assms], of cap]
  show ?thesis by (auto simp: begin_serial_listen)
next
  case False
  then show ?thesis by (simp add: begin_serial_listen listen_invalid_pin)
qed

text \<open>
  Claim C4, as stated, fails: \<^verbatim>\<open>begin(9600)\<close> on the example port returns with the
  stored speed 19200, the value of \<^verbatim>\<open>FORCE_BAUD_RATE\<close>, not 9600.
\<close>

theorem begin_stores_requested_rate_counterexample:
  "begin_serial 4 0 9600 demo_sys = Some demo_listening
   \<and> speed (objs demo_listening 0) = 19200
   \<and> speed (objs demo_listening 0) \<noteq> 9600"
  using begin_demo by (simp add: demo_listening_def)

text \<open>
  Claim C4, amended. \<^verbatim>\<open>begin(rate)\<close> ignores the requested rate: it stores 19200 and
  ends with the call of \<^verbatim>\<open>listen()\<close> on the object, so whenever it returns the stored
  speed is 19200 and, with a receive pin of at least 0, the object is the active listener
  at speed 19200 with the receiver reset. It returns whenever the busy-wait of
  \<^verbatim>\<open>listen()\<close> can end.
\<close>

theorem begin_forces_baud_rate:
  "begin_serial cap this rate s = begin_serial cap this rate' s
   \<and> begin_serial cap this rate s = map_option fst (listen cap this (begin_setup this s))
   \<and> speed (objs (begin_setup this s) this) = 19200
   \<and> (\<forall>s'. begin_serial cap this rate s = Some s' \<longrightarrow>
          speed (objs s' this) = 19200
        \<and> (0 \<le>s receivePin (objs s this) \<longrightarrow>
              active_listener s' = Some this \<and> cur_speed s' = 19200
              \<and> rx_tick_cnt s' = 1 \<and> rx_bit_cnt s' = - 1
              \<and> (\<not> half_duplex (objs s this) \<longrightarrow> active_in s' = Some this)))
   \<and> (can_finish s \<longrightarrow> (\<exists>s'. begin_serial cap this rate s = Some s'))"
proof -
  have 1: "begin_serial cap this rate s = begin_serial cap this rate' s"
    by (simp add: begin_serial_listen)
  have 2: "speed (objs (begin_setup this s) this) = 19200"
    by (simp add: begin_setup_fields FORCE_BAUD_RATE_def)
  show ?thesis
    using 1 2 begin_serial_listen [of cap this rate s] begin_serial_result [of cap this rate s]
      begin_serial_returns [of s cap this rate]
    by (simp add: FORCE_BAUD_RATE_def)
qed

text \<open>The theorem at the example port after power-on, for two requested rates.\<close>

theorem begin_forces_baud_rate_witness:
  "can_finish demo_sys \<and> 0 \<le>s receivePin (objs demo_sys 0)
   \<and> begin_serial 4 0 9600 demo_sys = begin_serial 4 0 115200 demo_sys
   \<and> begin_serial 4 0 9600 demo_sys = Some demo_listening
   \<and> speed (objs demo_listening 0) = 19200 \<and> active_listener demo_listening = Some 0"
proof -
  have c: "can_finish demo_sys" and p: "0 \<le>s receivePin (objs demo_sys 0)"
    by (simp_all add: can_finish_def demo_defs word_sle_eq)
  note t = begin_forces_baud_rate [of 4 0 9600 demo_sys 115200]
  from t have 1: "begin_serial 4 0 9600 demo_sys = begin_serial 4 0 115200 demo_sys" by blast
  from t begin_demo p have 2: "speed (objs demo_listening 0) = 19200
      \<and> active_listener demo_listening = Some 0" by blast
  show ?thesis using c p 1 2 begin_demo by simp
qed

text \<open>
  Claim C5. The code returns true from \<^verbatim>\<open>listen()\<close> whenever the receive pin is at
  least 0: here with no previous listener, and with the caller already the listener. The
  comment above the function (lines 153 and 154) promises true only when another listener
  is replaced.
\<close>

theorem listen_true_without_previous_listener:
  "0 \<le>s receivePin (objs demo_sys 0) \<and> active_listener demo_sys = None
   \<and> map_option snd (listen 4 0 demo_sys) = Some True
   \<and> 0 \<le>s receivePin (objs demo_listening 0) \<and> active_listener demo_listening = Some 0
   \<and> map_option snd (listen 4 0 demo_listening) = Some True"
proof -
  have p: "0 \<le>s receivePin (objs demo_sys 0)" "0 \<le>s receivePin (objs demo_listening 0)"
    and c: "can_finish demo_sys" "can_finish demo_listening"
    and a: "active_listener demo_sys = None" "active_listener demo_listening = Some 0"
    by (simp_all add: can_finish_def demo_defs demo_listening_def word_sle_eq)
  from listen_can_finish [OF p(1) c(1), of 4]
  have 1: "map_option snd (listen 4 0 demo_sys) = Some True" by auto
  from listen_can_finish [OF p(2) c(2), of 4]
  have 2: "map_option snd (listen 4 0 demo_listening) = Some True" by auto
  show ?thesis using p a 1 2 by simp
qed

text \<open>
  Claim C9. \<^verbatim>\<open>stopListening()\<close> called by an object that is not the active listener
  returns false and leaves the state as it is. Called by the active listener it returns
  true with both pointers cleared, the speed 0 and the tick source stopped; it does
  return when no transmission is active, and also when one is and the tick source runs.
\<close>

theorem stopListening_spec:
  "(active_listener s \<noteq> Some this \<longrightarrow> stopListening cap this s = Some (s, False))
   \<and> (active_listener s = Some this \<longrightarrow>
        (\<forall>s' r. stopListening cap this s = Some (s', r) \<longrightarrow>
           r \<and> active_listener s' = None \<and> active_in s' = None \<and> cur_speed s' = 0
           \<and> (timer_ok s \<longrightarrow> \<not> timer_running s'))
      \<and> (can_finish s \<longrightarrow> (\<exists>s'. stopListening cap this s = Some (s', True))))"
proof -
  have 1: "active_listener s \<noteq> Some this \<longrightarrow> stopListening cap this s = Some (s, False)"
    by (simp add: stopListening_not_listener)
  have 2: "active_listener s = Some this \<longrightarrow>
        (\<forall>s' r. stopListening cap this s = Some (s', r) \<longrightarrow>
           r \<and> active_listener s' = None \<and> active_in s' = None \<and> cur_speed s' = 0
           \<and> (timer_ok s \<longrightarrow> \<not> timer_running s'))"
    using stopListening_listener [of s this cap] by blast
  have 3: "active_listener s = Some this \<longrightarrow> can_finish s \<longrightarrow>
             (\<exists>s'. stopListening cap this s = Some (s', True))"
    using stopListening_can_finish [of s this cap] by blast
  show ?thesis using 1 2 3 by blast
qed

text \<open>The theorem at the example port after \<^verbatim>\<open>begin()\<close>, for the listener and for another object.\<close>

theorem stopListening_spec_witness:
  "active_listener demo_listening = Some 0 \<and> can_finish demo_listening
   \<and> timer_ok demo_listening
   \<and> map_option snd (stopListening 4 0 demo_listening) = Some True
   \<and> active_listener (fst (the (stopListening 4 0 demo_listening))) = None
   \<and> active_in (fst (the (stopListening 4 0 demo_listening))) = None
   \<and> cur_speed (fst (the (stopListening 4 0 demo_listening))) = 0
   \<and> \<not> timer_running (fst (the (stopListening 4 0 demo_listening)))
   \<and> active_listener demo_listening \<noteq> Some 1
   \<and> stopListening 4 1 demo_listening = Some (demo_listening, False)"
proof -
  have a: "active_listener demo_listening = Some 0" and c: "can_finish demo_listening"
    and k: "timer_ok demo_listening" and n: "active_listener demo_listening \<noteq> Some 1"
    by (simp_all add: can_finish_def timer_ok_def demo_listening_def)
  from stopListening_spec [of demo_listening 0 4] a c
  obtain s' where s': "stopListening 4 0 demo_listening = Some (s', True)" by blast
  from stopListening_spec [of demo_listening 0 4] a s' k
  have 1: "active_listener s' = None \<and> active_in s' = None \<and> cur_speed s' = 0
           \<and> \<not> timer_running s'" by blast
  from stopListening_spec [of demo_listening 1 4] n
  have 2: "stopListening 4 1 demo_listening = Some (demo_listening, False)" by blast
  show ?thesis using a c k n 1 2 by (simp add: s')
qed

section \<open>A frame on a loopback line\<close>

subsection \<open>The shift registers\<close>

lemma bit_0x200: "bit (0x200 :: 32 word) k \<longleftrightarrow> k = 9"
proof -
  have "(0x200 :: 32 word) = push_bit 9 1" by simp
  then show ?thesis by (simp only: bit_push_bit_iff bit_1_iff) (auto simp: possible_bit_word)
qed


lemma frame_bits:
  "bit (frame b) k \<longleftrightarrow> (1 \<le> k \<and> k \<le> 8 \<and> bit b (k - 1)) \<or> k = 9"
proof -
  have e: "frame b = push_bit 1 (ucast b) OR push_bit 9 1"
    unfolding frame_def by simp
  have "bit (frame b) k \<longleftrightarrow> (1 \<le> k \<and> k < 32 \<and> k - 1 < 8 \<and> bit b (k - 1)) \<or> k = 9"
    unfolding e by (simp only: bit_or_iff bit_push_bit_iff bit_ucast_iff bit_1_iff
        possible_bit_word) (auto dest: bit_imp_le_length)
  then show ?thesis by auto
qed





lemma frame_bit_0 [simp]: "\<not> bit (frame b) 0"
  by (simp add: frame_bits)

lemma frame_bit_9 [simp]: "bit (frame b) 9"
  by (simp add: frame_bits)







subsection \<open>One tick of a frame in flight\<close>





subsection \<open>The commit\<close>




subsection \<open>After the stop bit\<close>







subsection \<open>write() on a loopback line\<close>












subsection \<open>Sequences of writes\<close>

lemma unread_pending [simp]: "unread cap (ob\<lparr>output_pending := p\<rparr>) = unread cap ob"
  by (simp add: unread_def)

lemma ring_ok_pending [simp]: "ring_ok cap (ob\<lparr>output_pending := p\<rparr>) = ring_ok cap ob"
  by (simp add: ring_ok_def idx_ok_def)










subsection \<open>Inverse logic and half duplex\<close>















end
